theory Spec2Isabelle
  imports Main "HOL-Library.Word" "HOL-Library.Sublist" "HOL-Library.AList"
begin

section \<open>JavaScript strings\<close>

text \<open>
  A JavaScript string is a finite sequence of UTF-16 code units. The regular expressions
  of the terminal pane carry no \<open>u\<close> flag, so they, \<open>lastIndexOf\<close>, \<open>slice\<close>,
  \<open>startsWith\<close> and \<open>+\<close> all work on code units. \<open>js\<close> embeds an ASCII literal.
\<close>

type_synonym jschar = "16 word"
type_synonym jsstring = "jschar list"

definition js :: "string \<Rightarrow> jsstring" where
  "js s = map (\<lambda>c. of_nat (of_char c)) s"

definition ESC :: jschar where "ESC = 0x1B"
definition BEL :: jschar where "BEL = 0x07"
definition LBRACK :: jschar where "LBRACK = 0x5B"
definition RBRACK :: jschar where "RBRACK = 0x5D"
definition BACKSLASH :: jschar where "BACKSLASH = 0x5C"
definition QMARK :: jschar where "QMARK = 0x3F"
definition SEMI :: jschar where "SEMI = 0x3B"
definition GT :: jschar where "GT = 0x3E"
definition LOWER_C :: jschar where "LOWER_C = 0x63"
definition UPPER_R :: jschar where "UPPER_R = 0x52"

text \<open>\<open>\d\<close> is \<open>[0-9]\<close>.\<close>

definition isDigit :: "jschar \<Rightarrow> bool" where
  "isDigit c = (0x30 \<le> c \<and> c \<le> 0x39)"

text \<open>
  \<open>\s\<close> is ECMAScript's WhiteSpace and LineTerminator: TAB, LF, VT, FF, CR, SP, NBSP,
  U+1680, U+2000 to U+200A, U+2028, U+2029, U+202F, U+205F, U+3000 and U+FEFF.
\<close>

definition isSpace :: "jschar \<Rightarrow> bool" where
  "isSpace c =
     (c = 0x09 \<or> c = 0x0A \<or> c = 0x0B \<or> c = 0x0C \<or> c = 0x0D \<or> c = 0x20 \<or> c = 0xA0 \<or>
      c = 0x1680 \<or> (0x2000 \<le> c \<and> c \<le> 0x200A) \<or> c = 0x2028 \<or> c = 0x2029 \<or>
      c = 0x202F \<or> c = 0x205F \<or> c = 0x3000 \<or> c = 0xFEFF)"

section \<open>The sanitizer (sanitizeEchoArtifacts)\<close>

subsection \<open>Pieces shared by the first two patterns\<close>

text \<open>
  Every matcher takes the input from the position where the match is attempted and
  returns the input left after the match, or \<open>None\<close> when the pattern does not match
  there.

  \<open>\d+\<close> is greedy. In both patterns it is followed by \<open>;\<close>, \<open>c\<close> or \<open>R\<close>, none of
  them a digit, so giving a digit back can never make the rest match: the only match takes
  every digit. (That the matchers of this section find exactly what a backtracking matcher
  finds is proved further down.)
\<close>

definition digits :: "jsstring \<Rightarrow> jsstring option" where
  "digits s =
     (case s of
        [] \<Rightarrow> None
      | c # cs \<Rightarrow> if isDigit c then Some (dropWhile isDigit cs) else None)"

lemma digits_shorter: "digits s = Some r \<Longrightarrow> length r < length s"
  by (auto simp: digits_def less_Suc_eq_le length_dropWhile_le split: list.splits if_splits)

text \<open>
  \<open>(?:;\d+)*\<close> is greedy: it repeats while a \<open>;\<close> with at least one digit follows. An
  iteration given back would leave a \<open>;\<close> where \<open>c\<close> or \<open>R\<close> has to stand, so again
  the longest repetition is the only candidate.
\<close>

function groups :: "jsstring \<Rightarrow> jsstring" where
  "groups s =
     (case s of
        [] \<Rightarrow> s
      | c # cs \<Rightarrow>
          if c = SEMI then (case digits cs of Some r \<Rightarrow> groups r | None \<Rightarrow> s) else s)"
  by pat_completeness auto
termination
  by (relation "measure length") (auto dest: digits_shorter)

declare groups.simps [simp del]

lemma groups_Nil [simp]: "groups [] = []"
  by (simp add: groups.simps [of "[]"])

lemma groups_Cons:
  "groups (c # cs) =
     (if c = SEMI then (case digits cs of Some r \<Rightarrow> groups r | None \<Rightarrow> c # cs) else c # cs)"
  by (simp add: groups.simps [of "c # cs"])

lemma groups_le: "length (groups s) \<le> length s"
proof (induction s rule: groups.induct)
  case (1 s)
  show ?case
  proof (cases s)
    case Nil
    then show ?thesis by simp
  next
    case (Cons c cs)
    show ?thesis
    proof (cases "c = SEMI")
      case False
      with Cons show ?thesis by (simp add: groups_Cons)
    next
      case True
      show ?thesis
      proof (cases "digits cs")
        case None
        with Cons True show ?thesis by (simp add: groups_Cons)
      next
        case (Some r)
        with Cons True "1.IH" [of c cs r] digits_shorter [of cs r] show ?thesis
          by (simp add: groups_Cons)
      qed
    qed
  qed
qed

subsection \<open>Pattern 1: Device Attributes responses\<close>

text \<open>\<^verbatim>\<open>/\x1b\[\?\d+(?:;\d+)*c/g\<close>, replaced by the empty string.\<close>

definition matchDA :: "jsstring \<Rightarrow> jsstring option" where
  "matchDA s =
     (case s of
        a # b # q # r0 \<Rightarrow>
          if a = ESC \<and> b = LBRACK \<and> q = QMARK then
            (case digits r0 of
               None \<Rightarrow> None
             | Some r1 \<Rightarrow>
                 (case groups r1 of
                    [] \<Rightarrow> None
                  | x # r3 \<Rightarrow> if x = LOWER_C then Some r3 else None))
          else None
      | _ \<Rightarrow> None)"

lemma matchDA_shorter: "matchDA s = Some r \<Longrightarrow> length r < length s"
proof -
  assume m: "matchDA s = Some r"
  then obtain a b q r0 r1 x where s: "s = a # b # q # r0" and d: "digits r0 = Some r1"
    and g: "groups r1 = x # r"
    by (auto simp: matchDA_def split: list.splits if_splits option.splits)
  from groups_le [of r1] g have "length r < length r1" by simp
  with digits_shorter [OF d] s show ?thesis by simp
qed

text \<open>
  A global \<open>replace\<close> scans from the left: where the pattern matches, the match is
  replaced and the scan resumes right after it; elsewhere the code unit is kept.
\<close>

function replaceDA :: "jsstring \<Rightarrow> jsstring" where
  "replaceDA s =
     (case matchDA s of
        Some r \<Rightarrow> replaceDA r
      | None \<Rightarrow> (case s of [] \<Rightarrow> [] | c # cs \<Rightarrow> c # replaceDA cs))"
  by pat_completeness auto
termination
  by (relation "measure length") (auto dest: matchDA_shorter)

declare replaceDA.simps [simp del]

subsection \<open>Pattern 2: bare echoed fragments\<close>

text \<open>
  \<^verbatim>\<open>/(^|[\s>])\d+(?:;\d+)*[cR](?=$|\s)/g\<close>, replaced by \<^verbatim>\<open>$1\<close>. There is no \<open>m\<close>
  flag: \<open>^\<close> holds at index 0 of the whole string only and \<open>$\<close> at its end only.
  \<open>bareBody\<close> is the part after the capture group; the look-ahead consumes nothing.
\<close>

definition bareBody :: "jsstring \<Rightarrow> jsstring option" where
  "bareBody s =
     (case digits s of
        None \<Rightarrow> None
      | Some r1 \<Rightarrow>
          (case groups r1 of
             [] \<Rightarrow> None
           | x # r3 \<Rightarrow>
               if (x = LOWER_C \<or> x = UPPER_R) \<and> (case r3 of [] \<Rightarrow> True | y # _ \<Rightarrow> isSpace y)
               then Some r3 else None))"

text \<open>
  The group tries \<open>^\<close> first and \<open>[\s>]\<close> second. The result is the text captured by the
  group and the input left after the match. \<open>atStart\<close> tells whether the position is
  index 0.
\<close>

definition matchBare :: "bool \<Rightarrow> jsstring \<Rightarrow> (jsstring \<times> jsstring) option" where
  "matchBare atStart s =
     (case (if atStart then bareBody s else None) of
        Some r \<Rightarrow> Some ([], r)
      | None \<Rightarrow>
          (case s of
             [] \<Rightarrow> None
           | c # cs \<Rightarrow>
               if isSpace c \<or> c = GT then
                 (case bareBody cs of Some r \<Rightarrow> Some ([c], r) | None \<Rightarrow> None)
               else None))"

lemma bareBody_shorter: "bareBody s = Some r \<Longrightarrow> length r < length s"
proof -
  assume m: "bareBody s = Some r"
  then obtain r1 x where d: "digits s = Some r1" and g: "groups r1 = x # r"
    by (auto simp: bareBody_def split: list.splits if_splits option.splits)
  from groups_le [of r1] g have "length r < length r1" by simp
  with digits_shorter [OF d] show ?thesis by simp
qed

lemma matchBare_shorter: "matchBare b s = Some (g, r) \<Longrightarrow> length r < length s"
  by (auto simp: matchBare_def less_Suc_eq dest!: bareBody_shorter
      split: list.splits if_splits option.splits)

function replaceBare :: "bool \<Rightarrow> jsstring \<Rightarrow> jsstring" where
  "replaceBare atStart s =
     (case matchBare atStart s of
        Some (g, r) \<Rightarrow> g @ replaceBare False r
      | None \<Rightarrow> (case s of [] \<Rightarrow> [] | c # cs \<Rightarrow> c # replaceBare False cs))"
  by pat_completeness auto
termination
  by (relation "measure (\<lambda>(b, s). length s)") (auto dest: matchBare_shorter)

declare replaceBare.simps [simp del]

subsection \<open>Pattern 3: complete Operating System Command sequences\<close>

text \<open>
  \<^verbatim>\<open>/\x1b\][\s\S]*?(?:\x07|\x1b\\)/g\<close>, replaced by the empty string. \<open>[\s\S]\<close> is any
  code unit and \<open>*?\<close> is lazy, so the match ends at the first BEL or ESC-backslash after
  the two opening code units.
\<close>

fun oscEnd :: "jsstring \<Rightarrow> jsstring option" where
  "oscEnd [] = None"
| "oscEnd (c # cs) =
     (if c = BEL then Some cs
      else if c = ESC \<and> (case cs of [] \<Rightarrow> False | d # _ \<Rightarrow> d = BACKSLASH) then Some (tl cs)
      else oscEnd cs)"

definition matchOSC :: "jsstring \<Rightarrow> jsstring option" where
  "matchOSC s =
     (case s of
        a # b # r \<Rightarrow> if a = ESC \<and> b = RBRACK then oscEnd r else None
      | _ \<Rightarrow> None)"

lemma oscEnd_shorter: "oscEnd s = Some r \<Longrightarrow> length r < length s"
  by (induction s) (auto split: if_splits list.splits)

lemma matchOSC_shorter: "matchOSC s = Some r \<Longrightarrow> length r < length s"
  by (auto simp: matchOSC_def less_Suc_eq dest!: oscEnd_shorter split: list.splits if_splits)

function replaceOSC :: "jsstring \<Rightarrow> jsstring" where
  "replaceOSC s =
     (case matchOSC s of
        Some r \<Rightarrow> replaceOSC r
      | None \<Rightarrow> (case s of [] \<Rightarrow> [] | c # cs \<Rightarrow> c # replaceOSC cs))"
  by pat_completeness auto
termination
  by (relation "measure length") (auto dest: matchOSC_shorter)

declare replaceOSC.simps [simp del]

subsection \<open>The trailing, unterminated sequence\<close>

text \<open>
  \<open>lastIndexOf\<close> gives the greatest index at which the needle starts, \<open>None\<close> for the
  source's \<open>-1\<close>.
\<close>

definition lastIndexOf :: "jsstring \<Rightarrow> jsstring \<Rightarrow> nat option" where
  "lastIndexOf s needle =
     (case filter (\<lambda>i. prefix needle (drop i s)) (rev [0..<Suc (length s)]) of
        [] \<Rightarrow> None
      | i # _ \<Rightarrow> Some i)"

text \<open>\<^verbatim>\<open>/(\x07|\x1b\\)/.test(tail)\<close>: a BEL or an ESC-backslash stands somewhere.\<close>

fun hasTerminator :: "jsstring \<Rightarrow> bool" where
  "hasTerminator [] = False"
| "hasTerminator (c # cs) =
     (c = BEL \<or> (c = ESC \<and> (case cs of [] \<Rightarrow> False | d # _ \<Rightarrow> d = BACKSLASH))
      \<or> hasTerminator cs)"

text \<open>
  Both versions of the pane under \<open>src\<close> hold the same sanitizer.
  \<open>sanitizeEchoArtifacts\<close> reads and writes \<open>pendingOscRef.current\<close>; the model takes
  the buffer and returns the text with the new buffer. String concatenation, \<open>replace\<close>,
  \<open>lastIndexOf\<close>, \<open>slice\<close> and \<open>test\<close> never throw on strings, so the \<open>catch\<close> branch
  of the source is not reachable and has no counterpart here.
\<close>

definition sanitizeEchoArtifacts :: "jsstring \<Rightarrow> jsstring \<Rightarrow> jsstring \<times> jsstring" where
  "sanitizeEchoArtifacts pendingOsc chunk =
     (let working = pendingOsc @ chunk;
          working = replaceDA working;
          working = replaceBare True working;
          working = replaceOSC working
      in case lastIndexOf working [ESC, RBRACK] of
           None \<Rightarrow> (working, [])
         | Some lastOscStart \<Rightarrow>
             (let tail = drop lastOscStart working
              in if \<not> hasTerminator tail then (take lastOscStart working, tail)
                 else (working, [])))"

text \<open>Successive calls on one pane: each call starts from the buffer the last one left.\<close>

fun sanitizeCalls :: "jsstring \<Rightarrow> jsstring list \<Rightarrow> jsstring list \<times> jsstring" where
  "sanitizeCalls buffer [] = ([], buffer)"
| "sanitizeCalls buffer (chunk # later) =
     (case sanitizeEchoArtifacts buffer chunk of
        (out, pending) \<Rightarrow>
          (case sanitizeCalls pending later of (outs, final) \<Rightarrow> (out # outs, final)))"

subsection \<open>Predicates on texts and on the buffer\<close>

text \<open>
  A text free of artifacts: at no index does pattern 1, 2 or 3 match, and \<open>ESC ]\<close> does
  not occur.
\<close>

fun noDA :: "jsstring \<Rightarrow> bool" where
  "noDA [] = True"
| "noDA (c # cs) = (matchDA (c # cs) = None \<and> noDA cs)"

fun noBare :: "bool \<Rightarrow> jsstring \<Rightarrow> bool" where
  "noBare atStart [] = True"
| "noBare atStart (c # cs) = (matchBare atStart (c # cs) = None \<and> noBare False cs)"

fun noOSC :: "jsstring \<Rightarrow> bool" where
  "noOSC [] = True"
| "noOSC (c # cs) = (matchOSC (c # cs) = None \<and> noOSC cs)"

definition clean :: "jsstring \<Rightarrow> bool" where
  "clean s = (noDA s \<and> noBare True s \<and> noOSC s \<and> \<not> sublist [ESC, RBRACK] s)"

text \<open>
  A buffer that is empty, or starts with \<open>ESC ]\<close>, holds no second \<open>ESC ]\<close>, no BEL and
  no ESC-backslash.
\<close>

definition pendingOk :: "jsstring \<Rightarrow> bool" where
  "pendingOk p =
     (p = [] \<or>
      (prefix [ESC, RBRACK] p \<and> \<not> sublist [ESC, RBRACK] (tl p) \<and>
       BEL \<notin> set p \<and> \<not> sublist [ESC, BACKSLASH] p))"

subsection \<open>The patterns as regular expressions\<close>

text \<open>
  The matchers above follow one path through each pattern. To check that no other path
  of a backtracking matcher can give a different match, the patterns are also written as
  regular expressions with the usual backtracking semantics: \<open>bt n r (g, s)\<close> lists, in
  the order in which a backtracking matcher tries them, the states in which a match of
  \<open>r\<close> that starts in \<open>(g, s)\<close> can end. A state is the text captured by group 1 and the
  input left; \<open>n\<close> is the length of the whole string, so \<open>^\<close> holds where \<open>n\<close> code
  units are left and \<open>$\<close> where none is. A repetition gives up an iteration that consumes
  nothing.
\<close>

datatype rx =
    Chr "jschar \<Rightarrow> bool"
  | Bol
  | Eol
  | Seq rx rx
  | Alt rx rx
  | Star rx
  | LazyStar rx
  | Group rx
  | Ahead rx

type_synonym mstate = "jsstring \<times> jsstring"

function bt :: "nat \<Rightarrow> rx \<Rightarrow> mstate \<Rightarrow> mstate list" where
  "bt n (Chr p) (g, s) = (case s of [] \<Rightarrow> [] | c # cs \<Rightarrow> if p c then [(g, cs)] else [])"
| "bt n Bol (g, s) = (if length s = n then [(g, s)] else [])"
| "bt n Eol (g, s) = (if s = [] then [(g, s)] else [])"
| "bt n (Seq r1 r2) x = concat (map (bt n r2) (bt n r1 x))"
| "bt n (Alt r1 r2) x = bt n r1 x @ bt n r2 x"
| "bt n (Star r) x =
     concat (map (\<lambda>y. if length (snd y) < length (snd x) then bt n (Star r) y else [])
                 (bt n r x)) @ [x]"
| "bt n (LazyStar r) x =
     x # concat (map (\<lambda>y. if length (snd y) < length (snd x) then bt n (LazyStar r) y else [])
                     (bt n r x))"
| "bt n (Group r) (g, s) =
     map (\<lambda>y. (take (length s - length (snd y)) s, snd y)) (bt n r (g, s))"
| "bt n (Ahead r) x = (if bt n r x = [] then [] else [x])"
  by pat_completeness auto
termination
  by (relation "inv_image (less_than <*lex*> less_than) (\<lambda>(n, r, x). (size r, length (snd x)))")
    auto

declare bt.simps [simp del]

lemmas bt_Chr = bt.simps(1)
lemmas bt_Bol = bt.simps(2)
lemmas bt_Eol = bt.simps(3)
lemmas bt_Seq = bt.simps(4)
lemmas bt_Alt = bt.simps(5)
lemmas bt_Star = bt.simps(6)
lemmas bt_LazyStar = bt.simps(7)
lemmas bt_Group = bt.simps(8)
lemmas bt_Ahead = bt.simps(9)


text \<open>The match a backtracking matcher finds is the first one in that order.\<close>

definition firstMatch :: "'a list \<Rightarrow> 'a option" where
  "firstMatch xs = (case xs of [] \<Rightarrow> None | x # _ \<Rightarrow> Some x)"

text \<open>
  The three patterns. \<open>rxNumber k\<close> is \<^verbatim>\<open>\d+(?:;\d+)*\<close> followed by \<open>k\<close>;
  \<open>rxBareTail\<close> is \<^verbatim>\<open>[cR](?=$|\s)\<close>; \<open>rxTerminator\<close> is \<^verbatim>\<open>(?:\x07|\x1b\\)\<close>.
\<close>

definition rxDigit :: rx where "rxDigit = Chr isDigit"

definition rxGroup :: rx where
  "rxGroup = Seq (Chr (\<lambda>c. c = SEMI)) (Seq rxDigit (Star rxDigit))"

definition rxNumber :: "rx \<Rightarrow> rx" where
  "rxNumber k = Seq rxDigit (Seq (Star rxDigit) (Seq (Star rxGroup) k))"

definition rxDA :: rx where
  "rxDA =
     Seq (Chr (\<lambda>c. c = ESC)) (Seq (Chr (\<lambda>c. c = LBRACK)) (Seq (Chr (\<lambda>c. c = QMARK))
       (rxNumber (Chr (\<lambda>c. c = LOWER_C)))))"

definition rxBareTail :: rx where
  "rxBareTail = Seq (Chr (\<lambda>c. c = LOWER_C \<or> c = UPPER_R)) (Ahead (Alt Eol (Chr isSpace)))"

definition rxBare :: rx where
  "rxBare = Seq (Group (Alt Bol (Chr (\<lambda>c. isSpace c \<or> c = GT)))) (rxNumber rxBareTail)"

definition rxTerminator :: rx where
  "rxTerminator = Alt (Chr (\<lambda>c. c = BEL)) (Seq (Chr (\<lambda>c. c = ESC)) (Chr (\<lambda>c. c = BACKSLASH)))"

definition rxOscBody :: rx where
  "rxOscBody = Seq (LazyStar (Chr (\<lambda>c. True))) rxTerminator"

definition rxOSC :: rx where
  "rxOSC = Seq (Chr (\<lambda>c. c = ESC)) (Seq (Chr (\<lambda>c. c = RBRACK)) rxOscBody)"

text \<open>
  \<open>replace\<close> with a global regular expression: the first match from the current index
  on is replaced, by the text of group 1 when \<open>group1\<close> is set and by nothing otherwise,
  and the search resumes where the match ended; after an empty match the next code unit
  is kept and the search resumes behind it.
\<close>

function replaceAll :: "nat \<Rightarrow> rx \<Rightarrow> bool \<Rightarrow> jsstring \<Rightarrow> jsstring" where
  "replaceAll n r group1 s =
     (case firstMatch (bt n r ([], s)) of
        Some (g, rest) \<Rightarrow>
          (if group1 then g else []) @
          (if length rest < length s then replaceAll n r group1 rest
           else (case s of [] \<Rightarrow> [] | c # cs \<Rightarrow> c # replaceAll n r group1 cs))
      | None \<Rightarrow> (case s of [] \<Rightarrow> [] | c # cs \<Rightarrow> c # replaceAll n r group1 cs))"
  by pat_completeness auto
termination
  by (relation "measure (\<lambda>(n, r, b, s). length s)") auto

declare replaceAll.simps [simp del]

text \<open>Continuations that fail on an input led by a digit, or by a semicolon.\<close>

definition digitDead :: "nat \<Rightarrow> rx \<Rightarrow> bool" where
  "digitDead n k = (\<forall>g c cs. isDigit c \<longrightarrow> bt n k (g, c # cs) = [])"

definition semiDead :: "nat \<Rightarrow> rx \<Rightarrow> bool" where
  "semiDead n k = (\<forall>g cs. bt n k (g, SEMI # cs) = [])"


section \<open>The snapshot cache\<close>

definition SNAPSHOT_LIMIT_BYTES :: int where
  "SNAPSHOT_LIMIT_BYTES = 512 * 1024"

text \<open>
  \<open>SnapshotChunk\<close> is \<open>{ text, bytes }\<close> and \<open>SnapshotEntry\<close> is \<open>{ chunks, bytes }\<close>;
  the chunk's fields are written \<open>ctext\<close> and \<open>cbytes\<close>. The byte counts are JavaScript
  numbers, far below the range where they stop being exact, hence \<open>int\<close>.
  \<open>terminalSnapshots\<close> is a \<open>Map\<close> keyed by the terminal's id.
\<close>

record SnapshotChunk =
  ctext :: jsstring
  cbytes :: int

record SnapshotEntry =
  chunks :: "SnapshotChunk list"
  bytes :: int

type_synonym snapshots = "jsstring \<rightharpoonup> SnapshotEntry"

definition isHighSurrogate :: "jschar \<Rightarrow> bool" where
  "isHighSurrogate c = (0xD800 \<le> c \<and> c \<le> 0xDBFF)"

definition isLowSurrogate :: "jschar \<Rightarrow> bool" where
  "isLowSurrogate c = (0xDC00 \<le> c \<and> c \<le> 0xDFFF)"

text \<open>
  \<open>textEncoder.encode(text).length\<close>: the length of the UTF-8 encoding. A surrogate pair
  is one code point of four bytes; a lone surrogate is encoded as U+FFFD, three bytes.
\<close>

fun utf8Length :: "jsstring \<Rightarrow> int" where
  "utf8Length [] = 0"
| "utf8Length [c] = (if c < 0x80 then 1 else if c < 0x800 then 2 else 3)"
| "utf8Length (c # d # ds) =
     (if c < 0x80 then 1 + utf8Length (d # ds)
      else if c < 0x800 then 2 + utf8Length (d # ds)
      else if isHighSurrogate c \<and> isLowSurrogate d then 4 + utf8Length ds
      else 3 + utf8Length (d # ds))"

text \<open>\<open>[...text].length\<close>: the string iterator yields code points.\<close>

fun codePointCount :: "jsstring \<Rightarrow> int" where
  "codePointCount [] = 0"
| "codePointCount [c] = 1"
| "codePointCount (c # d # ds) =
     (if isHighSurrogate c \<and> isLowSurrogate d then 1 + codePointCount ds
      else 1 + codePointCount (d # ds))"

text \<open>
  The module constant \<open>textEncoder\<close> is an encoder or \<open>null\<close>; the flag says which.
\<close>

definition encodeBytes :: "bool \<Rightarrow> jsstring \<Rightarrow> int" where
  "encodeBytes textEncoder txt =
     (if txt = [] then 0
      else if textEncoder then utf8Length txt
      else codePointCount txt)"

text \<open>
  The \<open>while\<close> loop of \<open>appendSnapshotChunk\<close>: while the running total exceeds the limit and more
  than one chunk is left, \<open>shift\<close> the oldest chunk and subtract its size.
\<close>

fun evictOldest :: "SnapshotChunk list \<Rightarrow> int \<Rightarrow> SnapshotChunk list \<times> int" where
  "evictOldest (c # c' # cs) running =
     (if running > SNAPSHOT_LIMIT_BYTES then evictOldest (c' # cs) (running - cbytes c)
      else (c # c' # cs, running))"
| "evictOldest cs running = (cs, running)"

definition appendSnapshotChunk :: "bool \<Rightarrow> jsstring \<Rightarrow> jsstring \<Rightarrow> snapshots \<Rightarrow> snapshots" where
  "appendSnapshotChunk textEncoder ident txt m =
     (if txt = [] then m
      else
        let entry = (case m ident of Some e \<Rightarrow> e | None \<Rightarrow> \<lparr>chunks = [], bytes = 0\<rparr>);
            chunk = \<lparr>ctext = txt, cbytes = encodeBytes textEncoder txt\<rparr>
        in if cbytes chunk = 0 then m
           else
             (case evictOldest (chunks entry @ [chunk]) (bytes entry + cbytes chunk) of
                (cs, running) \<Rightarrow> m(ident \<mapsto> \<lparr>chunks = cs, bytes = running\<rparr>)))"

definition getSnapshotText :: "jsstring \<Rightarrow> snapshots \<Rightarrow> jsstring" where
  "getSnapshotText ident m =
     (case m ident of
        None \<Rightarrow> []
      | Some entry \<Rightarrow>
          (case chunks entry of
             [c] \<Rightarrow> ctext c
           | cs \<Rightarrow> concat (map ctext cs)))"

definition clearSnapshot :: "jsstring \<Rightarrow> snapshots \<Rightarrow> snapshots" where
  "clearSnapshot ident m = m(ident := None)"

text \<open>A sequence of \<open>appendSnapshotChunk(id, text)\<close> calls, in order.\<close>

fun appendAll :: "bool \<Rightarrow> (jsstring \<times> jsstring) list \<Rightarrow> snapshots \<Rightarrow> snapshots" where
  "appendAll textEncoder [] m = m"
| "appendAll textEncoder ((ident, txt) # calls) m =
     appendAll textEncoder calls (appendSnapshotChunk textEncoder ident txt m)"

text \<open>
  What every entry of the cache satisfies: it has a chunk, its byte count is the sum of
  its chunks' sizes, and every chunk has a positive size; and the cap on entries of two or
  more chunks.
\<close>

definition entryOk :: "SnapshotEntry \<Rightarrow> bool" where
  "entryOk e =
     (chunks e \<noteq> [] \<and> bytes e = sum_list (map cbytes (chunks e)) \<and>
      list_all (\<lambda>c. 0 < cbytes c) (chunks e))"

definition storeOk :: "snapshots \<Rightarrow> bool" where
  "storeOk m = (\<forall>k e. m k = Some e \<longrightarrow> entryOk e)"

definition capOk :: "snapshots \<Rightarrow> bool" where
  "capOk m = (\<forall>k e. m k = Some e \<longrightarrow> 2 \<le> length (chunks e) \<longrightarrow> bytes e \<le> SNAPSHOT_LIMIT_BYTES)"

section \<open>The terminal pane: history, live data, fallback replay, exit\<close>

text \<open>
  An optional callback may return or throw when called; every call of \<open>onStartError\<close> in
  the pane stands in a \<open>try\<close> with an empty \<open>catch\<close>.
\<close>

datatype callback = Returning | Throwing

text \<open>
  The props the effect reads (\<open>termId\<close> is the prop \<open>id\<close>), with the module constant
  \<open>textEncoder\<close>.
\<close>

record Props =
  termId :: jsstring
  keepAlive :: bool
  onStartError :: "callback option"
  textEncoder :: bool

text \<open>
  The state one run of the effect works on: the module's \<open>terminalSnapshots\<close>,
  \<open>pendingOscRef.current\<close>, the two flags, \<open>startTsRef.current\<close> (milliseconds), the
  texts passed to \<open>term.write\<close> in order, the messages passed to \<open>onStartError\<close> by the
  exit handler in order, whether the timeout set for \<open>fallbackTimer\<close> is still scheduled,
  and whether the cleanup has run.
\<close>

record pane =
  terminalSnapshots :: snapshots
  pendingOsc :: jsstring
  historyReceived :: bool
  historyReplayedViaFallback :: bool
  startTs :: int
  written :: "jsstring list"
  startErrors :: "jsstring list"
  timerScheduled :: bool
  disposed :: bool

text \<open>
  The state right after the effect has run: the buffer reset, both flags false, the
  timeout scheduled, the start time taken.
\<close>

definition mount :: "snapshots \<Rightarrow> int \<Rightarrow> pane" where
  "mount m now =
     \<lparr>terminalSnapshots = m, pendingOsc = [], historyReceived = False,
      historyReplayedViaFallback = False, startTs = now, written = [], startErrors = [],
      timerScheduled = True, disposed = False\<rparr>"

text \<open>\<open>term.write(t); appendSnapshotChunk(id, t)\<close>.\<close>

definition writeAndAppend :: "Props \<Rightarrow> jsstring \<Rightarrow> pane \<Rightarrow> pane" where
  "writeAndAppend P t s =
     s\<lparr>written := written s @ [t],
       terminalSnapshots := appendSnapshotChunk (textEncoder P) (termId P) t (terminalSnapshots s)\<rparr>"

definition handleIncoming :: "Props \<Rightarrow> jsstring \<Rightarrow> bool \<Rightarrow> pane \<Rightarrow> pane" where
  "handleIncoming P data isHistory s0 =
     (case sanitizeEchoArtifacts (pendingOsc s0) data of
        (sanitized, pending) \<Rightarrow>
          (let s = s0\<lparr>pendingOsc := pending\<rparr>
           in if sanitized = [] then s
              else if isHistory \<and> historyReplayedViaFallback s then
                (let cached = getSnapshotText (termId P) (terminalSnapshots s)
                 in if cached \<noteq> [] \<and> prefix cached sanitized then
                      (let diff = drop (length cached) sanitized
                       in if diff \<noteq> [] then writeAndAppend P diff s else s)
                    else writeAndAppend P sanitized s)
              else writeAndAppend P sanitized s))"

text \<open>The callback given to \<open>onPtyHistory\<close> and the one given to \<open>onPtyData\<close>.\<close>

definition onPtyHistory :: "Props \<Rightarrow> jsstring \<Rightarrow> pane \<Rightarrow> pane" where
  "onPtyHistory P data s = handleIncoming P data True (s\<lparr>historyReceived := True\<rparr>)"

definition onPtyData :: "Props \<Rightarrow> jsstring \<Rightarrow> pane \<Rightarrow> pane" where
  "onPtyData P data s = handleIncoming P data False s"

text \<open>Decimal digits of an integer, as a template literal prints an integral number.\<close>

fun showNat :: "nat \<Rightarrow> jsstring" where
  "showNat n =
     (if n < 10 then [0x30 + of_nat n]
      else showNat (n div 10) @ [0x30 + of_nat (n mod 10)])"

declare showNat.simps [simp del]

definition numberToString :: "int \<Rightarrow> jsstring" where
  "numberToString n = (if n < 0 then js ''-'' @ showNat (nat (- n)) else showNat (nat n))"

text \<open>
  \<^verbatim>\<open>`PTY exited early (code ${info?.exitCode ?? 'n/a'})`\<close>; \<open>None\<close> is a missing
  \<open>info\<close> or exit code.
\<close>

definition earlyExitMessage :: "int option \<Rightarrow> jsstring" where
  "earlyExitMessage exitCode =
     js ''PTY exited early (code '' @
     (case exitCode of None \<Rightarrow> js ''n/a'' | Some n \<Rightarrow> numberToString n) @ js '')''"

text \<open>
  The callback given to \<open>onPtyExit\<close>; \<open>now\<close> is what \<open>Date.now()\<close> returns. Whether
  the callback returns or throws, the handler ends normally.
\<close>

definition onPtyExit :: "Props \<Rightarrow> int \<Rightarrow> int option \<Rightarrow> pane \<Rightarrow> pane" where
  "onPtyExit P now exitCode s =
     (let elapsed = now - startTs s
      in if elapsed < 1500 \<and> onStartError P \<noteq> None
         then s\<lparr>startErrors := startErrors s @ [earlyExitMessage exitCode]\<rparr>
         else s)"

text \<open>The body of the timeout set 250 ms after the effect ran.\<close>

definition fallbackTimer :: "Props \<Rightarrow> pane \<Rightarrow> pane" where
  "fallbackTimer P s =
     (if \<not> historyReceived s then
        (let cached = getSnapshotText (termId P) (terminalSnapshots s)
         in if cached \<noteq> []
            then s\<lparr>historyReplayedViaFallback := True, written := written s @ [cached]\<rparr>
            else s)
      else s)"

text \<open>
  The cleanup of the effect: without \<open>keepAlive\<close> the snapshot is cleared; then every
  collected dispose function runs, which unsubscribes the three channels and clears the
  timeout.
\<close>

definition cleanup :: "Props \<Rightarrow> pane \<Rightarrow> pane" where
  "cleanup P s =
     (let s = (if \<not> keepAlive P
               then s\<lparr>terminalSnapshots := clearSnapshot (termId P) (terminalSnapshots s)\<rparr>
               else s)
      in s\<lparr>timerScheduled := False, disposed := True\<rparr>)"

text \<open>
  What the event loop can deliver to the pane. A timeout runs its body once, and only
  while it is scheduled; after the cleanup nothing is delivered any more.
\<close>

datatype event =
    PtyHistory jsstring
  | PtyData jsstring
  | PtyExit int "int option"
  | FallbackTimer
  | Cleanup

definition step :: "Props \<Rightarrow> pane \<Rightarrow> event \<Rightarrow> pane" where
  "step P s e =
     (if disposed s then s
      else
        (case e of
           PtyHistory data \<Rightarrow> onPtyHistory P data s
         | PtyData data \<Rightarrow> onPtyData P data s
         | PtyExit now exitCode \<Rightarrow> onPtyExit P now exitCode s
         | FallbackTimer \<Rightarrow>
             if timerScheduled s then fallbackTimer P (s\<lparr>timerScheduled := False\<rparr>) else s
         | Cleanup \<Rightarrow> cleanup P s))"

definition run :: "Props \<Rightarrow> pane \<Rightarrow> event list \<Rightarrow> pane" where
  "run P s es = foldl (step P) s es"

text \<open>Example data for the concrete instances: a pane \<open>t1\<close> whose snapshot holds \<open>ABC\<close>.\<close>

definition demoProps :: Props where
  "demoProps = \<lparr>termId = js ''t1'', keepAlive = True, onStartError = Some Returning, textEncoder = True\<rparr>"

definition demoSnapshots :: snapshots where
  "demoSnapshots = appendSnapshotChunk True (js ''t1'') (js ''ABC'') Map.empty"

section \<open>The focus registry\<close>

text \<open>
  A handler is a function object: \<open>'h\<close> is its identity, compared by \<open>===\<close>, and
  \<open>call\<close> tells what calling it does. A predicate returns a boolean or throws. Neither
  changes the registry. The registry is a \<open>Map\<close>, which iterates in insertion order and
  keeps the position of a key that is set again: an association list with
  \<open>AList.update\<close> and \<open>AList.delete\<close>. \<open>!id\<close> holds for the empty string only; the
  test \<open>typeof handler !== 'function'\<close> never holds for a value of the handler type, and a
  missing handler argument of \<open>unregisterTerminalFocus\<close> is \<open>None\<close>.
\<close>

datatype error = Thrown

type_synonym 'h registry = "(jsstring \<times> 'h) list"

definition registerTerminalFocus :: "jsstring \<Rightarrow> 'h \<Rightarrow> 'h registry \<Rightarrow> 'h registry" where
  "registerTerminalFocus ident handler reg =
     (if ident = [] then reg else AList.update ident handler reg)"

definition unregisterTerminalFocus :: "jsstring \<Rightarrow> 'h option \<Rightarrow> 'h registry \<Rightarrow> 'h registry" where
  "unregisterTerminalFocus ident handler reg =
     (if ident = [] then reg
      else
        (case handler of
           None \<Rightarrow> AList.delete ident reg
         | Some h \<Rightarrow> if map_of reg ident = Some h then AList.delete ident reg else reg))"

text \<open>
  \<open>focusTerminalById\<close> and \<open>focusTerminalMatching\<close> return the handlers they called, in
  order, with their result.
\<close>

definition focusTerminalById :: "('h \<Rightarrow> error + unit) \<Rightarrow> jsstring \<Rightarrow> 'h registry \<Rightarrow> 'h list \<times> bool" where
  "focusTerminalById call ident reg =
     (case map_of reg ident of
        None \<Rightarrow> ([], False)
      | Some handler \<Rightarrow>
          (case call handler of Inr _ \<Rightarrow> ([handler], True) | Inl _ \<Rightarrow> ([handler], False)))"

text \<open>
  The \<open>try\<close> block of the loop body for one entry: the handlers called, and an exception,
  a returned value (\<open>Some\<close>) or the end of the block (\<open>None\<close>).
\<close>

definition tryEntry ::
  "('h \<Rightarrow> error + unit) \<Rightarrow> (jsstring \<Rightarrow> 'h \<Rightarrow> error + bool) \<Rightarrow> jsstring \<Rightarrow> 'h \<Rightarrow>
     'h list \<times> (error + bool option)" where
  "tryEntry call predicate ident handler =
     (case predicate ident handler of
        Inl e \<Rightarrow> ([], Inl e)
      | Inr False \<Rightarrow> ([], Inr None)
      | Inr True \<Rightarrow>
          (case call handler of
             Inl e \<Rightarrow> ([handler], Inl e)
           | Inr _ \<Rightarrow> ([handler], Inr (Some True))))"

text \<open>
  The loop: the \<open>catch\<close> is empty, so after an exception the next entry is tried. The
  result is a sum so that an exception leaving the function would be a value.
\<close>

fun focusTerminalMatching ::
  "('h \<Rightarrow> error + unit) \<Rightarrow> (jsstring \<Rightarrow> 'h \<Rightarrow> error + bool) \<Rightarrow> 'h registry \<Rightarrow>
     'h list \<times> (error + bool)" where
  "focusTerminalMatching call predicate [] = ([], Inr False)"
| "focusTerminalMatching call predicate ((ident, handler) # rest) =
     (case tryEntry call predicate ident handler of
        (called, Inr (Some b)) \<Rightarrow> (called, Inr b)
      | (called, _) \<Rightarrow>
          (case focusTerminalMatching call predicate rest of
             (called', res) \<Rightarrow> (called @ called', res)))"

text \<open>
  An entry satisfies the predicate when the predicate returns \<open>true\<close> for it; it fires
  when, besides, calling its handler does not throw.
\<close>

definition selects :: "(jsstring \<Rightarrow> 'h \<Rightarrow> error + bool) \<Rightarrow> jsstring \<times> 'h \<Rightarrow> bool" where
  "selects predicate e = (predicate (fst e) (snd e) = Inr True)"

definition fires ::
  "('h \<Rightarrow> error + unit) \<Rightarrow> (jsstring \<Rightarrow> 'h \<Rightarrow> error + bool) \<Rightarrow> jsstring \<times> 'h \<Rightarrow> bool" where
  "fires call predicate e = (predicate (fst e) (snd e) = Inr True \<and> call (snd e) = Inr ())"

text \<open>
  Example data: the predicate throws on \<open>a\<close>, is false on \<open>b\<close> and true elsewhere;
  handler 2 throws when called.
\<close>

definition demoCall :: "nat \<Rightarrow> error + unit" where
  "demoCall h = (if h = 2 then Inl Thrown else Inr ())"

definition demoPredicate :: "jsstring \<Rightarrow> nat \<Rightarrow> error + bool" where
  "demoPredicate ident h = (if ident = js ''a'' then Inl Thrown else Inr (ident \<noteq> js ''b''))"

definition demoRegistry :: "nat registry" where
  "demoRegistry = [(js ''a'', 1), (js ''b'', 5), (js ''c'', 2), (js ''d'', 3), (js ''e'', 4)]"

section \<open>Properties of the sanitizer\<close>

subsection \<open>The matchers find what a backtracking matcher finds\<close>

lemma SEMI_not_digit: "\<not> isDigit SEMI"
  by (simp add: isDigit_def SEMI_def)

lemma firstMatch_append:
  "firstMatch (xs @ ys) = (case firstMatch xs of Some x \<Rightarrow> Some x | None \<Rightarrow> firstMatch ys)"
  by (cases xs) (simp_all add: firstMatch_def)

lemma concat_map_concat_map:
  "concat (map f (concat (map h xs))) = concat (map (\<lambda>x. concat (map f (h x))) xs)"
  by (induction xs) simp_all

lemma bt_Seq_Chr:
  "bt n (Seq (Chr p) k) (g, s) =
     (case s of [] \<Rightarrow> [] | c # cs \<Rightarrow> if p c then bt n k (g, cs) else [])"
  by (simp add: bt_Seq bt_Chr split: list.splits)

lemma bt_Seq_digit:
  "bt n (Seq rxDigit k) (g, s) =
     (case s of [] \<Rightarrow> [] | c # cs \<Rightarrow> if isDigit c then bt n k (g, cs) else [])"
  unfolding rxDigit_def by (rule bt_Seq_Chr)

lemma bt_Star_digit_Nil: "bt n (Star rxDigit) (g, []) = [(g, [])]"
  by (simp add: rxDigit_def bt_Star [of n "Chr isDigit" "(g, [])"] bt_Chr)

lemma bt_Star_digit_Cons:
  "bt n (Star rxDigit) (g, c # cs) =
     (if isDigit c then bt n (Star rxDigit) (g, cs) @ [(g, c # cs)] else [(g, c # cs)])"
  by (simp add: rxDigit_def bt_Star [of n "Chr isDigit" "(g, c # cs)"] bt_Chr)

lemma Star_digit_shorter: "y \<in> set (bt n (Star rxDigit) (g, s)) \<Longrightarrow> length (snd y) \<le> length s"
  by (induction s) (auto simp: bt_Star_digit_Nil bt_Star_digit_Cons split: if_splits)

lemma skip_digits:
  assumes "digitDead n k"
  shows "concat (map (bt n k) (bt n (Star rxDigit) (g, s))) = bt n k (g, dropWhile isDigit s)"
proof (induction s)
  case Nil
  show ?case by (simp add: bt_Star_digit_Nil)
next
  case (Cons c cs)
  from assms have "isDigit c \<Longrightarrow> bt n k (g, c # cs) = []" by (simp add: digitDead_def)
  with Cons show ?case by (simp add: bt_Star_digit_Cons)
qed

lemma bt_digits1:
  assumes "digitDead n k"
  shows "bt n (Seq rxDigit (Seq (Star rxDigit) k)) (g, s) =
           (case digits s of None \<Rightarrow> [] | Some r \<Rightarrow> bt n k (g, r))"
proof (cases s)
  case Nil
  then show ?thesis by (simp add: digits_def bt_Seq_digit)
next
  case (Cons c cs)
  have "bt n (Seq rxDigit (Seq (Star rxDigit) k)) (g, c # cs) =
          (if isDigit c then bt n (Seq (Star rxDigit) k) (g, cs) else [])"
    by (simp add: bt_Seq_digit)
  also have "bt n (Seq (Star rxDigit) k) (g, cs) = bt n k (g, dropWhile isDigit cs)"
    using skip_digits [OF assms, of g cs] by (simp add: bt_Seq)
  finally show ?thesis by (simp add: Cons digits_def)
qed

lemma bt_rxGroup:
  "bt n rxGroup (g, s) =
     (case s of
        [] \<Rightarrow> []
      | c # cs \<Rightarrow>
          if c = SEMI then
            (case cs of [] \<Rightarrow> [] | d # ds \<Rightarrow> if isDigit d then bt n (Star rxDigit) (g, ds) else [])
          else [])"
  by (simp add: rxGroup_def bt_Seq_Chr bt_Seq_digit split: list.splits)

lemma digitDead_groups:
  assumes "digitDead n k"
  shows "digitDead n (Seq (Star rxGroup) k)"
proof -
  have "bt n (Seq (Star rxGroup) k) (g, c # cs) = []" if "isDigit c" for g c cs
  proof -
    from that SEMI_not_digit have "c \<noteq> SEMI" by auto
    then have "bt n (Star rxGroup) (g, c # cs) = [(g, c # cs)]"
      by (simp add: bt_Star [of n rxGroup "(g, c # cs)"] bt_rxGroup)
    with assms that show ?thesis by (simp add: digitDead_def bt_Seq)
  qed
  then show ?thesis by (simp add: digitDead_def)
qed

lemma groups_bt:
  assumes dd: "digitDead n k" and sd: "semiDead n k"
  shows "bt n (Seq (Star rxGroup) k) (g, s) = bt n k (g, groups s)"
proof (induction s rule: groups.induct)
  case (1 s)
  show ?case
  proof (cases "\<exists>cs r. s = SEMI # cs \<and> digits cs = Some r")
    case False
    then have "bt n rxGroup (g, s) = []"
      by (auto simp: bt_rxGroup digits_def split: list.splits)
    then have "bt n (Star rxGroup) (g, s) = [(g, s)]"
      by (simp add: bt_Star [of n rxGroup "(g, s)"])
    moreover from False have "groups s = s"
      by (cases s) (auto simp: groups_Cons split: option.splits)
    ultimately show ?thesis by (simp add: bt_Seq)
  next
    case True
    then obtain cs r where s: "s = SEMI # cs" and d: "digits cs = Some r" by blast
    from d obtain c ds where cs: "cs = c # ds" and c: "isDigit c" and r: "r = dropWhile isDigit ds"
      by (auto simp: digits_def split: list.splits if_splits)
    let ?ys = "bt n (Star rxDigit) (g, ds)"
    have grp: "bt n rxGroup (g, s) = ?ys" by (simp add: bt_rxGroup s cs c)
    have "map (\<lambda>y. if length (snd y) < length (snd (g, s)) then bt n (Star rxGroup) y else []) ?ys
            = map (bt n (Star rxGroup)) ?ys"
    proof (rule map_cong [OF refl])
      fix y assume "y \<in> set ?ys"
      from Star_digit_shorter [OF this] have "length (snd y) < length (snd (g, s))"
        by (simp add: s cs)
      then show "(if length (snd y) < length (snd (g, s)) then bt n (Star rxGroup) y else [])
                   = bt n (Star rxGroup) y" by simp
    qed
    then have star: "bt n (Star rxGroup) (g, s) = concat (map (bt n (Star rxGroup)) ?ys) @ [(g, s)]"
      by (subst bt_Star) (simp only: grp)
    from sd have dead: "bt n k (g, s) = []" by (simp add: semiDead_def s)
    have seq: "bt n (Seq (Star rxGroup) k) = (\<lambda>x. concat (map (bt n k) (bt n (Star rxGroup) x)))"
      by (rule ext) (simp add: bt_Seq)
    have "bt n (Seq (Star rxGroup) k) (g, s)
            = concat (map (bt n (Seq (Star rxGroup) k)) ?ys)"
      by (simp add: bt_Seq [of n "Star rxGroup" k "(g, s)"] star dead concat_map_concat_map seq)
    also have "\<dots> = bt n (Seq (Star rxGroup) k) (g, r)"
      unfolding r by (rule skip_digits [OF digitDead_groups [OF dd]])
    also have "\<dots> = bt n k (g, groups r)"
      using "1.IH" [OF s refl d] by simp
    also have "groups r = groups s" by (simp add: s groups_Cons d)
    finally show ?thesis .
  qed
qed

lemma bt_number:
  assumes "digitDead n k" and "semiDead n k"
  shows "bt n (rxNumber k) (g, s) =
           (case digits s of None \<Rightarrow> [] | Some r \<Rightarrow> bt n k (g, groups r))"
  unfolding rxNumber_def
  using bt_digits1 [OF digitDead_groups [OF assms(1)], of g s] groups_bt [OF assms, of g]
  by (simp split: option.splits)

lemma dead_LOWER_C: "digitDead n (Chr (\<lambda>c. c = LOWER_C))" "semiDead n (Chr (\<lambda>c. c = LOWER_C))"
  by (auto simp: digitDead_def semiDead_def isDigit_def LOWER_C_def SEMI_def bt_Chr)

lemma dead_bareTail: "digitDead n rxBareTail" "semiDead n rxBareTail"
  by (auto simp: digitDead_def semiDead_def rxBareTail_def isDigit_def LOWER_C_def UPPER_R_def
      SEMI_def bt_Seq_Chr)

lemma matchDA_backtracking:
  "map_option snd (firstMatch (bt n rxDA (g, s))) = matchDA s"
  by (simp add: rxDA_def matchDA_def bt_Seq_Chr bt_number [OF dead_LOWER_C] bt_Chr firstMatch_def
      split: list.splits option.splits)

lemma bt_bareTail:
  "bt n rxBareTail (g, s) =
     (case s of
        [] \<Rightarrow> []
      | x # r3 \<Rightarrow>
          if (x = LOWER_C \<or> x = UPPER_R) \<and> (case r3 of [] \<Rightarrow> True | y # _ \<Rightarrow> isSpace y)
          then [(g, r3)] else [])"
  by (simp add: rxBareTail_def bt_Seq_Chr bt_Ahead bt_Alt bt_Eol bt_Chr split: list.splits)

lemma bt_bareBody:
  "bt n (rxNumber rxBareTail) (g, s) = (case bareBody s of None \<Rightarrow> [] | Some r \<Rightarrow> [(g, r)])"
  by (simp add: bt_number [OF dead_bareTail] bt_bareTail bareBody_def
      split: option.splits list.splits)

lemma bt_group1:
  "bt n (Group (Alt Bol (Chr p))) (g, s) =
     (if length s = n then [([], s)] else []) @
     (case s of [] \<Rightarrow> [] | c # cs \<Rightarrow> if p c then [([c], cs)] else [])"
  by (auto simp: bt_Group bt_Alt bt_Bol bt_Chr split: list.splits)

lemma matchBare_backtracking:
  "firstMatch (bt n rxBare (g, s)) = matchBare (length s = n) s"
  by (simp add: rxBare_def bt_Seq bt_group1 bt_bareBody matchBare_def firstMatch_def
      split: list.splits option.splits)

lemma bt_LazyStar_any_Nil: "bt n (LazyStar (Chr (\<lambda>c. True))) (g, []) = [(g, [])]"
  by (simp add: bt_LazyStar [of n "Chr (\<lambda>c. True)" "(g, [])"] bt_Chr)

lemma bt_LazyStar_any_Cons:
  "bt n (LazyStar (Chr (\<lambda>c. True))) (g, c # cs) =
     (g, c # cs) # bt n (LazyStar (Chr (\<lambda>c. True))) (g, cs)"
  by (simp add: bt_LazyStar [of n "Chr (\<lambda>c. True)" "(g, c # cs)"] bt_Chr)

lemma bt_terminator:
  "firstMatch (bt n rxTerminator (g, s)) =
     (case s of
        [] \<Rightarrow> None
      | c # cs \<Rightarrow>
          if c = BEL then Some (g, cs)
          else if c = ESC \<and> (case cs of [] \<Rightarrow> False | d # _ \<Rightarrow> d = BACKSLASH) then Some (g, tl cs)
          else None)"
  by (simp add: rxTerminator_def bt_Alt bt_Seq_Chr bt_Chr firstMatch_def split: list.splits)

lemma lazy_terminator:
  "firstMatch (bt n rxOscBody (g, s)) = map_option (Pair g) (oscEnd s)"
  unfolding rxOscBody_def bt_Seq
proof (induction s)
  case Nil
  show ?case by (simp add: bt_LazyStar_any_Nil bt_terminator)
next
  case (Cons c cs)
  then show ?case
    by (simp add: bt_LazyStar_any_Cons firstMatch_append bt_terminator)
qed

lemma matchOSC_backtracking:
  "map_option snd (firstMatch (bt n rxOSC (g, s))) = matchOSC s"
  by (simp add: rxOSC_def matchOSC_def bt_Seq_Chr lazy_terminator option.map_comp comp_def
      option.map_ident firstMatch_def [of "[]"] split: list.splits)


subsection \<open>The sanitizer\<close>

lemma matchDA_Nil [simp]: "matchDA [] = None"
  by (simp add: matchDA_def)

lemma matchBare_Nil [simp]: "matchBare b [] = None"
  by (simp add: matchBare_def bareBody_def digits_def)

lemma matchOSC_Nil [simp]: "matchOSC [] = None"
  by (simp add: matchOSC_def)

lemma replaceDA_Nil [simp]: "replaceDA [] = []"
  by (simp add: replaceDA.simps [of "[]"])

lemma replaceDA_Cons:
  "replaceDA (c # cs) =
     (case matchDA (c # cs) of Some r \<Rightarrow> replaceDA r | None \<Rightarrow> c # replaceDA cs)"
  by (simp add: replaceDA.simps [of "c # cs"] split: option.splits)

lemma replaceBare_Nil [simp]: "replaceBare b [] = []"
  by (simp add: replaceBare.simps [of b "[]"])

lemma replaceBare_Cons:
  "replaceBare b (c # cs) =
     (case matchBare b (c # cs) of
        Some (g, r) \<Rightarrow> g @ replaceBare False r
      | None \<Rightarrow> c # replaceBare False cs)"
  by (simp add: replaceBare.simps [of b "c # cs"] split: option.splits)

lemma replaceOSC_Nil [simp]: "replaceOSC [] = []"
  by (simp add: replaceOSC.simps [of "[]"])

lemma replaceOSC_Cons:
  "replaceOSC (c # cs) =
     (case matchOSC (c # cs) of Some r \<Rightarrow> replaceOSC r | None \<Rightarrow> c # replaceOSC cs)"
  by (simp add: replaceOSC.simps [of "c # cs"] split: option.splits)

lemma replaceDA_noDA: "noDA s \<Longrightarrow> replaceDA s = s"
  by (induction s) (simp_all add: replaceDA_Cons)

lemma replaceBare_noBare: "noBare b s \<Longrightarrow> replaceBare b s = s"
  by (induction s arbitrary: b) (simp_all add: replaceBare_Cons)

lemma replaceOSC_noOSC: "noOSC s \<Longrightarrow> replaceOSC s = s"
  by (induction s) (simp_all add: replaceOSC_Cons)

text \<open>
  With that, the sanitizer is what the source says: three global replaces of the three
  regular expressions, then the search for a trailing unterminated sequence.
\<close>

lemma replaceDA_regex: "replaceDA s = replaceAll n rxDA False s"
proof (induction s rule: replaceDA.induct)
  case (1 s)
  show ?case
  proof (cases "matchDA s")
    case None
    with matchDA_backtracking [of n "[]" s] have f: "firstMatch (bt n rxDA ([], s)) = None" by simp
    show ?thesis
    proof (cases s)
      case Nil
      with f show ?thesis by (simp add: replaceAll.simps [of n rxDA False "[]"])
    next
      case (Cons c cs)
      with None "1.IH"(1) [OF None Cons] f show ?thesis
        by (simp add: replaceAll.simps [of n rxDA False "c # cs"] replaceDA_Cons)
    qed
  next
    case (Some r)
    with matchDA_backtracking [of n "[]" s] obtain g where
      f: "firstMatch (bt n rxDA ([], s)) = Some (g, r)" by auto
    from matchDA_shorter [OF Some] have l: "length r < length s" .
    from Some "1.IH"(2) [OF Some] f l show ?thesis
      by (simp add: replaceAll.simps [of n rxDA False s] replaceDA.simps [of s])
  qed
qed

lemma replaceOSC_regex: "replaceOSC s = replaceAll n rxOSC False s"
proof (induction s rule: replaceOSC.induct)
  case (1 s)
  show ?case
  proof (cases "matchOSC s")
    case None
    with matchOSC_backtracking [of n "[]" s] have f: "firstMatch (bt n rxOSC ([], s)) = None" by simp
    show ?thesis
    proof (cases s)
      case Nil
      with f show ?thesis by (simp add: replaceAll.simps [of n rxOSC False "[]"])
    next
      case (Cons c cs)
      with None "1.IH"(1) [OF None Cons] f show ?thesis
        by (simp add: replaceAll.simps [of n rxOSC False "c # cs"] replaceOSC_Cons)
    qed
  next
    case (Some r)
    with matchOSC_backtracking [of n "[]" s] obtain g where
      f: "firstMatch (bt n rxOSC ([], s)) = Some (g, r)" by auto
    from matchOSC_shorter [OF Some] have l: "length r < length s" .
    from Some "1.IH"(2) [OF Some] f l show ?thesis
      by (simp add: replaceAll.simps [of n rxOSC False s] replaceOSC.simps [of s])
  qed
qed

lemma replaceBare_regex_aux:
  "length s \<le> n \<Longrightarrow> b = (length s = n) \<Longrightarrow> replaceBare b s = replaceAll n rxBare True s"
proof (induction b s rule: replaceBare.induct)
  case (1 b s)
  from "1.prems"(2) matchBare_backtracking [of n "[]" s]
  have f: "firstMatch (bt n rxBare ([], s)) = matchBare b s" by simp
  show ?case
  proof (cases "matchBare b s")
    case None
    show ?thesis
    proof (cases s)
      case Nil
      with f None show ?thesis by (simp add: replaceAll.simps [of n rxBare True "[]"])
    next
      case (Cons c cs)
      with "1.prems" have "length cs \<le> n" "False = (length cs = n)" by auto
      with "1.IH"(1) [OF None Cons] have "replaceBare False cs = replaceAll n rxBare True cs"
        by simp
      with None Cons f show ?thesis
        by (simp add: replaceAll.simps [of n rxBare True "c # cs"] replaceBare_Cons)
    qed
  next
    case (Some gr)
    obtain g r where gr: "gr = (g, r)" by (cases gr)
    from matchBare_shorter [of b s g r] Some gr have l: "length r < length s" by simp
    with "1.prems" have "length r \<le> n" "False = (length r = n)" by auto
    with "1.IH"(2) [OF Some gr [symmetric]] have "replaceBare False r = replaceAll n rxBare True r"
      by simp
    with Some gr f l show ?thesis
      by (simp add: replaceAll.simps [of n rxBare True s] replaceBare.simps [of b s])
  qed
qed

lemma replaceBare_regex: "replaceBare True s = replaceAll (length s) rxBare True s"
  by (rule replaceBare_regex_aux) simp_all

lemma sanitize_regex:
  "sanitizeEchoArtifacts pending chunk =
     (let working = pending @ chunk;
          working = replaceAll (length working) rxDA False working;
          working = replaceAll (length working) rxBare True working;
          working = replaceAll (length working) rxOSC False working
      in case lastIndexOf working [ESC, RBRACK] of
           None \<Rightarrow> (working, [])
         | Some lastOscStart \<Rightarrow>
             (let tail = drop lastOscStart working
              in if \<not> hasTerminator tail then (take lastOscStart working, tail)
                 else (working, [])))"
proof -
  define w1 where "w1 = replaceDA (pending @ chunk)"
  define w2 where "w2 = replaceBare True w1"
  have 1: "replaceAll (length (pending @ chunk)) rxDA False (pending @ chunk) = w1"
    unfolding w1_def by (rule replaceDA_regex [symmetric])
  have 2: "replaceAll (length w1) rxBare True w1 = w2"
    unfolding w2_def by (rule replaceBare_regex [symmetric])
  have 3: "replaceAll (length w2) rxOSC False w2 = replaceOSC w2"
    by (rule replaceOSC_regex [symmetric])
  show ?thesis
    unfolding Let_def 1 2 3
    by (simp add: sanitizeEchoArtifacts_def Let_def w1_def w2_def split: option.splits)
qed


lemma prefix_drop_sublist: "prefix n (drop i s) \<Longrightarrow> sublist n s"
proof -
  assume "prefix n (drop i s)"
  then obtain ss where "drop i s = n @ ss" by (auto simp: prefix_def)
  then have "s = take i s @ n @ ss" by (metis append_take_drop_id)
  then show ?thesis unfolding sublist_def by blast
qed

lemma lastIndexOf_None: "\<not> sublist n s \<Longrightarrow> lastIndexOf s n = None"
proof -
  assume ns: "\<not> sublist n s"
  have "filter (\<lambda>i. prefix n (drop i s)) (rev [0..<Suc (length s)]) = []"
    using ns prefix_drop_sublist [of n _ s] by (auto simp: filter_empty_conv)
  then show ?thesis by (simp add: lastIndexOf_def)
qed

lemma sanitize_clean_aux: "clean s \<Longrightarrow> sanitizeEchoArtifacts [] s = (s, [])"
  by (simp add: clean_def sanitizeEchoArtifacts_def replaceDA_noDA replaceBare_noBare
      replaceOSC_noOSC lastIndexOf_None)

lemma last_filter_upt:
  assumes "filter P (rev [0..<n]) = i # rest"
  shows "P i \<and> i < n \<and> (\<forall>j. i < j \<and> j < n \<longrightarrow> \<not> P j)"
  using assms
proof (induction n arbitrary: i rest)
  case 0
  then show ?case by simp
next
  case (Suc n)
  show ?case
  proof (cases "P n")
    case True
    with Suc.prems have "i = n" by simp
    with True show ?thesis by auto
  next
    case False
    with Suc.prems have "filter P (rev [0..<n]) = i # rest" by simp
    from Suc.IH [OF this] False show ?thesis by (auto simp: less_Suc_eq)
  qed
qed

lemma lastIndexOf_Some:
  assumes "lastIndexOf s n = Some i"
  shows "prefix n (drop i s) \<and> i \<le> length s \<and> (\<forall>j. i < j \<and> j \<le> length s \<longrightarrow> \<not> prefix n (drop j s))"
proof -
  from assms obtain rest where
    "filter (\<lambda>i. prefix n (drop i s)) (rev [0..<Suc (length s)]) = i # rest"
    by (auto simp: lastIndexOf_def split: list.splits)
  from last_filter_upt [OF this] show ?thesis by (auto simp: less_Suc_eq_le)
qed

lemma hasTerminator_iff: "hasTerminator s \<longleftrightarrow> BEL \<in> set s \<or> sublist [ESC, BACKSLASH] s"
proof (induction s)
  case Nil
  then show ?case by simp
next
  case (Cons c cs)
  have "prefix [ESC, BACKSLASH] (c # cs) \<longleftrightarrow>
          (c = ESC \<and> (case cs of [] \<Rightarrow> False | d # _ \<Rightarrow> d = BACKSLASH))"
    by (cases cs) auto
  with Cons show ?case by (auto simp: sublist_Cons_right)
qed

lemma tail_single_start:
  assumes "lastIndexOf s n = Some i" and "n \<noteq> []"
  shows "\<not> sublist n (tl (drop i s))"
proof
  assume "sublist n (tl (drop i s))"
  then obtain ps ss where e: "tl (drop i s) = ps @ n @ ss" unfolding sublist_def by blast
  have t: "tl (drop i s) = drop (Suc i) s" by (simp add: drop_Suc drop_tl)
  let ?j = "Suc i + length ps"
  from e t have d: "drop ?j s = n @ ss"
    by (metis append_eq_conv_conj drop_drop add.commute)
  with assms(2) have "?j \<le> length s" by (cases "?j \<le> length s") auto
  moreover from d have "prefix n (drop ?j s)" by simp
  ultimately show False using lastIndexOf_Some [OF assms(1)] by auto
qed

lemma pendingOk_sanitize: "pendingOk (snd (sanitizeEchoArtifacts p chunk))"
proof -
  define w where "w = replaceOSC (replaceBare True (replaceDA (p @ chunk)))"
  show ?thesis
  proof (cases "lastIndexOf w [ESC, RBRACK]")
    case None
    then show ?thesis by (simp add: sanitizeEchoArtifacts_def w_def pendingOk_def)
  next
    case (Some i)
    show ?thesis
    proof (cases "hasTerminator (drop i w)")
      case True
      with Some show ?thesis by (simp add: sanitizeEchoArtifacts_def w_def pendingOk_def)
    next
      case False
      with Some have r: "snd (sanitizeEchoArtifacts p chunk) = drop i w"
        by (simp add: sanitizeEchoArtifacts_def w_def Let_def)
      from lastIndexOf_Some [OF Some] have "prefix [ESC, RBRACK] (drop i w)" by simp
      moreover from tail_single_start [OF Some] have "\<not> sublist [ESC, RBRACK] (tl (drop i w))"
        by simp
      moreover from False have "BEL \<notin> set (drop i w)" "\<not> sublist [ESC, BACKSLASH] (drop i w)"
        by (simp_all add: hasTerminator_iff)
      ultimately show ?thesis by (simp add: r pendingOk_def)
    qed
  qed
qed

lemma pendingOk_calls: "pendingOk p \<Longrightarrow> pendingOk (snd (sanitizeCalls p inputs))"
proof (induction inputs arbitrary: p)
  case Nil
  then show ?case by simp
next
  case (Cons c cs)
  obtain out q where s: "sanitizeEchoArtifacts p c = (out, q)" by (cases "sanitizeEchoArtifacts p c")
  with pendingOk_sanitize [of p c] have "pendingOk q" by simp
  from Cons.IH [OF this] s show ?case by (auto split: prod.splits)
qed


lemma pendingOk_handleIncoming:
  "pendingOk (pendingOsc (handleIncoming P data isHistory s))"
proof -
  obtain out q where sa: "sanitizeEchoArtifacts (pendingOsc s) data = (out, q)"
    by (cases "sanitizeEchoArtifacts (pendingOsc s) data")
  with pendingOk_sanitize [of "pendingOsc s" data] have "pendingOk q" by simp
  moreover from sa have "pendingOsc (handleIncoming P data isHistory s) = q"
    by (simp add: handleIncoming_def writeAndAppend_def Let_def)
  ultimately show ?thesis by simp
qed

lemma pendingOk_step: "pendingOk (pendingOsc s) \<Longrightarrow> pendingOk (pendingOsc (step P s e))"
  by (cases e)
    (simp_all add: step_def onPtyHistory_def onPtyData_def onPtyExit_def fallbackTimer_def
      cleanup_def pendingOk_handleIncoming Let_def)

lemma pendingOk_run: "pendingOk (pendingOsc s) \<Longrightarrow> pendingOk (pendingOsc (run P s es))"
  unfolding run_def by (induction es arbitrary: s) (simp_all add: pendingOk_step)

text \<open>
  C3. From an empty buffer, the chunk \<open>ESC ]0;title\<close> returns the empty string and goes
  to the buffer whole; the next chunk \<open>BEL rest\<close> then returns \<open>rest\<close> and leaves the
  buffer empty: the reassembled sequence is stripped and no part of it is ever returned.
\<close>

theorem split_osc_reassembly:
  "sanitizeEchoArtifacts [] (ESC # js '']0;title'') = ([], ESC # js '']0;title'') \<and>
   sanitizeEchoArtifacts (ESC # js '']0;title'') (BEL # js ''rest'') = (js ''rest'', []) \<and>
   sanitizeCalls [] [ESC # js '']0;title'', BEL # js ''rest''] = ([[], js ''rest''], [])"
  by code_simp

text \<open>
  C5. A text free of artifacts (no Device Attributes response, no anchored bare fragment,
  no complete OSC sequence, no \<open>ESC ]\<close>) is returned unchanged from an empty buffer and
  leaves the buffer empty; sanitizing the result again changes nothing.
\<close>

theorem clean_text_unchanged:
  assumes "clean s"
  shows "sanitizeEchoArtifacts [] s = (s, []) \<and>
         sanitizeEchoArtifacts [] (fst (sanitizeEchoArtifacts [] s)) = sanitizeEchoArtifacts [] s"
  using assms by (simp add: sanitize_clean_aux)

theorem clean_text_unchanged_witness:
  "clean (js ''ls -la > out.txt'') \<and>
   sanitizeEchoArtifacts [] (js ''ls -la > out.txt'') = (js ''ls -la > out.txt'', [])"
proof -
  have h: "clean (js ''ls -la > out.txt'')" by code_simp
  from clean_text_unchanged [OF h] h show ?thesis by simp
qed

text \<open>
  C6. From an empty buffer, \<open>ESC [?1;2c\<close> sanitizes to the empty string, and
  \<open>prompt> 1;2c next\<close> to \<open>prompt>  next\<close>: the fragment \<open>1;2c\<close> goes, the space
  before it is kept by the capture group and the space after it was never part of the
  match, so two spaces remain.
\<close>

theorem device_attribute_stripping:
  "sanitizeEchoArtifacts [] (ESC # js ''[?1;2c'') = ([], []) \<and>
   sanitizeEchoArtifacts [] (js ''prompt> 1;2c next'') = (js ''prompt>  next'', [])"
  by code_simp

text \<open>
  C10. The pending buffer is empty or starts with \<open>ESC ]\<close> and holds no BEL, no
  ESC-backslash and no second \<open>ESC ]\<close>: this holds when the pane is mounted, after every
  call of the sanitizer whatever the buffer was before, after any sequence of calls, and
  after any sequence of events of a pane. The buffer is used by being put in front of the
  next chunk.
\<close>

theorem pending_buffer_invariant:
  "pendingOk (pendingOsc (mount m now)) \<and>
   pendingOk (snd (sanitizeEchoArtifacts p chunk)) \<and>
   pendingOk (snd (sanitizeCalls [] inputs)) \<and>
   pendingOk (pendingOsc (run P (mount m now) es)) \<and>
   sanitizeEchoArtifacts p chunk = sanitizeEchoArtifacts [] (p @ chunk)"
proof -
  have init: "pendingOk []" by (simp add: pendingOk_def)
  then have m: "pendingOk (pendingOsc (mount m now))" by (simp add: mount_def)
  from pendingOk_calls [OF init] pendingOk_sanitize pendingOk_run [OF m] m show ?thesis
    by (simp add: sanitizeEchoArtifacts_def)
qed


section \<open>Properties of the snapshot cache\<close>

lemma utf8Length_nonneg: "0 \<le> utf8Length s"
  by (induction s rule: utf8Length.induct) auto

lemma codePointCount_nonneg: "0 \<le> codePointCount s"
  by (induction s rule: codePointCount.induct) auto

lemma utf8Length_pos: "s \<noteq> [] \<Longrightarrow> 0 < utf8Length s"
proof (cases s rule: utf8Length.cases)
  case (3 c d ds)
  assume "s \<noteq> []"
  from utf8Length_nonneg [of "d # ds"] utf8Length_nonneg [of ds] 3 show ?thesis by simp
qed simp_all

lemma codePointCount_pos: "s \<noteq> [] \<Longrightarrow> 0 < codePointCount s"
proof (cases s rule: codePointCount.cases)
  case (3 c d ds)
  assume "s \<noteq> []"
  from codePointCount_nonneg [of "d # ds"] codePointCount_nonneg [of ds] 3 show ?thesis by simp
qed simp_all

lemma encodeBytes_pos: "txt \<noteq> [] \<Longrightarrow> 0 < encodeBytes enc txt"
  by (simp add: encodeBytes_def utf8Length_pos codePointCount_pos)

lemma evictOldest_suffix: "suffix (fst (evictOldest cs b)) cs"
  by (induction cs b rule: evictOldest.induct) (auto intro: suffix_ConsI)

lemma evictOldest_last:
  "cs \<noteq> [] \<Longrightarrow> fst (evictOldest cs b) \<noteq> [] \<and> last (fst (evictOldest cs b)) = last cs"
  by (induction cs b rule: evictOldest.induct) auto

lemma evictOldest_sum:
  "snd (evictOldest cs b) - sum_list (map cbytes (fst (evictOldest cs b))) =
     b - sum_list (map cbytes cs)"
  by (induction cs b rule: evictOldest.induct) auto

lemma evictOldest_cap:
  "2 \<le> length (fst (evictOldest cs b)) \<Longrightarrow> snd (evictOldest cs b) \<le> SNAPSHOT_LIMIT_BYTES"
  by (induction cs b rule: evictOldest.induct) (auto split: if_splits)

lemma evictOldest_big:
  assumes "b = sum_list (map cbytes cs)" and "list_all (\<lambda>c. 0 \<le> cbytes c) cs"
    and "cs \<noteq> []" and "SNAPSHOT_LIMIT_BYTES < cbytes (last cs)"
  shows "fst (evictOldest cs b) = [last cs]"
  using assms
proof (induction cs b rule: evictOldest.induct)
  case (1 c c' cs running)
  have "cbytes (last (c' # cs)) \<le> sum_list (map cbytes (c' # cs))"
    using "1.prems"(2) by (intro member_le_sum_list) (auto simp: list_all_iff)
  with "1.prems" have big: "SNAPSHOT_LIMIT_BYTES < running" "SNAPSHOT_LIMIT_BYTES < running - cbytes c"
    by auto
  with "1.IH" "1.prems" show ?case by simp
qed simp_all


lemma appendSnapshotChunk_other:
  "k \<noteq> ident \<Longrightarrow> appendSnapshotChunk enc ident txt m k = m k"
  by (simp add: appendSnapshotChunk_def Let_def split: prod.splits)

lemma appendSnapshotChunk_empty: "appendSnapshotChunk enc ident [] m = m"
  by (simp add: appendSnapshotChunk_def)

lemma appendSnapshotChunk_entry:
  assumes "txt \<noteq> []"
  shows "appendSnapshotChunk enc ident txt m ident =
           Some \<lparr>chunks = fst (evictOldest
                    ((case m ident of None \<Rightarrow> [] | Some e \<Rightarrow> chunks e) @
                       [\<lparr>ctext = txt, cbytes = encodeBytes enc txt\<rparr>])
                    ((case m ident of None \<Rightarrow> 0 | Some e \<Rightarrow> bytes e) + encodeBytes enc txt)),
                 bytes = snd (evictOldest
                    ((case m ident of None \<Rightarrow> [] | Some e \<Rightarrow> chunks e) @
                       [\<lparr>ctext = txt, cbytes = encodeBytes enc txt\<rparr>])
                    ((case m ident of None \<Rightarrow> 0 | Some e \<Rightarrow> bytes e) + encodeBytes enc txt))\<rparr>"
  using assms encodeBytes_pos [OF assms, of enc]
  by (simp add: appendSnapshotChunk_def Let_def split: prod.splits option.splits)

lemma entryOk_evict:
  assumes "b = sum_list (map cbytes cs)" and "list_all (\<lambda>c. 0 < cbytes c) cs" and "cs \<noteq> []"
  shows "entryOk \<lparr>chunks = fst (evictOldest cs b), bytes = snd (evictOldest cs b)\<rparr>"
proof -
  from evictOldest_suffix [of cs b]
  have "set (fst (evictOldest cs b)) \<subseteq> set cs" by (rule set_mono_suffix)
  with assms(2) have "list_all (\<lambda>c. 0 < cbytes c) (fst (evictOldest cs b))"
    by (auto simp: list_all_iff)
  with evictOldest_last [OF assms(3), of b] evictOldest_sum [of cs b] assms(1)
  show ?thesis by (simp add: entryOk_def)
qed

lemma storeOk_append: "storeOk m \<Longrightarrow> storeOk (appendSnapshotChunk enc ident txt m)"
proof (cases "txt = []")
  case True
  assume "storeOk m"
  with True show ?thesis by (simp add: appendSnapshotChunk_empty)
next
  case False
  assume ok: "storeOk m"
  let ?old = "case m ident of None \<Rightarrow> [] | Some e \<Rightarrow> chunks e"
  let ?b = "case m ident of None \<Rightarrow> 0 | Some e \<Rightarrow> bytes e"
  let ?new = "\<lparr>ctext = txt, cbytes = encodeBytes enc txt\<rparr>"
  have "?b = sum_list (map cbytes ?old) \<and> list_all (\<lambda>c. 0 < cbytes c) ?old"
    using ok by (auto simp: storeOk_def entryOk_def split: option.splits)
  with encodeBytes_pos [OF False, of enc]
  have "entryOk \<lparr>chunks = fst (evictOldest (?old @ [?new]) (?b + encodeBytes enc txt)),
                 bytes = snd (evictOldest (?old @ [?new]) (?b + encodeBytes enc txt))\<rparr>"
    by (intro entryOk_evict) simp_all
  with appendSnapshotChunk_entry [OF False, of enc ident m]
  have "\<exists>e. appendSnapshotChunk enc ident txt m ident = Some e \<and> entryOk e" by simp
  with ok show ?thesis
    unfolding storeOk_def
    by (metis appendSnapshotChunk_other option.inject)
qed

lemma storeOk_appendAll: "storeOk m \<Longrightarrow> storeOk (appendAll enc calls m)"
  by (induction calls arbitrary: m) (auto simp: storeOk_append)

lemma storeOk_empty: "storeOk Map.empty"
  by (simp add: storeOk_def)

lemma append_cap:
  "appendSnapshotChunk enc ident txt m k = Some e \<Longrightarrow>
   (\<forall>e0. m k = Some e0 \<longrightarrow> 2 \<le> length (chunks e0) \<longrightarrow> bytes e0 \<le> SNAPSHOT_LIMIT_BYTES) \<Longrightarrow>
   2 \<le> length (chunks e) \<Longrightarrow> bytes e \<le> SNAPSHOT_LIMIT_BYTES"
proof (cases "k = ident \<and> txt \<noteq> []")
  case True
  assume a: "appendSnapshotChunk enc ident txt m k = Some e" and l: "2 \<le> length (chunks e)"
  from True a appendSnapshotChunk_entry [of "txt" enc ident m] l evictOldest_cap
  show ?thesis by auto
next
  case False
  assume a: "appendSnapshotChunk enc ident txt m k = Some e" and l: "2 \<le> length (chunks e)"
    and h: "\<forall>e0. m k = Some e0 \<longrightarrow> 2 \<le> length (chunks e0) \<longrightarrow> bytes e0 \<le> SNAPSHOT_LIMIT_BYTES"
  from False a have "m k = Some e"
    by (cases "txt = []") (auto simp: appendSnapshotChunk_empty appendSnapshotChunk_other)
  with h l show ?thesis by simp
qed

lemma capOk_empty: "capOk Map.empty"
  by (simp add: capOk_def)

lemma capOk_append: "capOk m \<Longrightarrow> capOk (appendSnapshotChunk enc ident txt m)"
  unfolding capOk_def using append_cap by blast

lemma capOk_appendAll: "capOk m \<Longrightarrow> capOk (appendAll enc calls m)"
  by (induction calls arbitrary: m) (auto simp: capOk_append)

text \<open>
  C2. Take any session id and the cache reached from the empty cache by any finite
  sequence of appends, and append once more. Afterwards every entry of the cache has a
  byte count equal to the sum of its chunks' sizes and, if it holds two or more chunks, at
  most 512 KiB. If the appended text is not empty, the entry of that id ends with the new
  chunk, whole, and its chunks are a suffix of the old chunks followed by the new one, so
  that only the oldest are gone; an entry of one chunk is that chunk, and a text larger
  than the cap is kept as the only chunk with a byte count above the cap. An empty text
  changes nothing, and no other id's entry is touched.
\<close>

theorem snapshot_cap:
  fixes enc :: bool and ident t :: jsstring and calls :: "(jsstring \<times> jsstring) list"
  defines "m \<equiv> appendAll enc calls Map.empty"
  defines "m' \<equiv> appendSnapshotChunk enc ident t m"
  defines "new \<equiv> \<lparr>ctext = t, cbytes = encodeBytes enc t\<rparr>"
  defines "old \<equiv> (case m ident of None \<Rightarrow> [] | Some e \<Rightarrow> chunks e)"
  shows "(\<forall>k e. m' k = Some e \<longrightarrow>
            chunks e \<noteq> [] \<and> bytes e = sum_list (map cbytes (chunks e)) \<and>
            (2 \<le> length (chunks e) \<longrightarrow> bytes e \<le> SNAPSHOT_LIMIT_BYTES)) \<and>
         (t \<noteq> [] \<longrightarrow>
            (\<exists>e. m' ident = Some e \<and> suffix (chunks e) (old @ [new]) \<and> last (chunks e) = new \<and>
                 (length (chunks e) = 1 \<longrightarrow> chunks e = [new]) \<and>
                 (SNAPSHOT_LIMIT_BYTES < encodeBytes enc t \<longrightarrow>
                    chunks e = [new] \<and> bytes e = encodeBytes enc t))) \<and>
         (t = [] \<longrightarrow> m' = m) \<and>
         (\<forall>k. k \<noteq> ident \<longrightarrow> m' k = m k) \<and>
         SNAPSHOT_LIMIT_BYTES = 524288"
proof (intro conjI)
  show "SNAPSHOT_LIMIT_BYTES = 524288" by (simp add: SNAPSHOT_LIMIT_BYTES_def)
  have okm: "storeOk m" "capOk m"
    unfolding m_def by (simp_all add: storeOk_appendAll storeOk_empty capOk_appendAll capOk_empty)
  then have "storeOk m'" "capOk m'"
    unfolding m'_def by (simp_all add: storeOk_append capOk_append)
  then show "\<forall>k e. m' k = Some e \<longrightarrow>
            chunks e \<noteq> [] \<and> bytes e = sum_list (map cbytes (chunks e)) \<and>
            (2 \<le> length (chunks e) \<longrightarrow> bytes e \<le> SNAPSHOT_LIMIT_BYTES)"
    by (auto simp: storeOk_def capOk_def entryOk_def)
  show "t = [] \<longrightarrow> m' = m" by (simp add: m'_def appendSnapshotChunk_empty)
  show "\<forall>k. k \<noteq> ident \<longrightarrow> m' k = m k" by (simp add: m'_def appendSnapshotChunk_other)
  show "t \<noteq> [] \<longrightarrow>
            (\<exists>e. m' ident = Some e \<and> suffix (chunks e) (old @ [new]) \<and> last (chunks e) = new \<and>
                 (length (chunks e) = 1 \<longrightarrow> chunks e = [new]) \<and>
                 (SNAPSHOT_LIMIT_BYTES < encodeBytes enc t \<longrightarrow>
                    chunks e = [new] \<and> bytes e = encodeBytes enc t))"
  proof
    assume ne: "t \<noteq> []"
    let ?b = "(case m ident of None \<Rightarrow> 0 | Some e \<Rightarrow> bytes e) + encodeBytes enc t"
    let ?cs = "fst (evictOldest (old @ [new]) ?b)"
    let ?e = "\<lparr>chunks = ?cs, bytes = snd (evictOldest (old @ [new]) ?b)\<rparr>"
    have e: "m' ident = Some ?e"
      unfolding m'_def old_def new_def using appendSnapshotChunk_entry [OF ne, of enc ident m] by simp
    have s: "suffix ?cs (old @ [new])" by (rule evictOldest_suffix)
    have l: "?cs \<noteq> [] \<and> last ?cs = new" using evictOldest_last [of "old @ [new]" ?b] by simp
    then have one: "length ?cs = 1 \<longrightarrow> ?cs = [new]"
      by (cases ?cs) auto
    have sumold: "?b = sum_list (map cbytes (old @ [new])) \<and> list_all (\<lambda>c. 0 \<le> cbytes c) (old @ [new])"
      using okm(1) encodeBytes_pos [OF ne, of enc]
      by (auto simp: storeOk_def entryOk_def old_def new_def list_all_iff less_imp_le split: option.splits)
    have big: "SNAPSHOT_LIMIT_BYTES < encodeBytes enc t \<longrightarrow>
                 ?cs = [new] \<and> snd (evictOldest (old @ [new]) ?b) = encodeBytes enc t"
    proof
      assume g: "SNAPSHOT_LIMIT_BYTES < encodeBytes enc t"
      with sumold have c: "?cs = [new]"
        using evictOldest_big [of ?b "old @ [new]"] by (simp add: new_def)
      from evictOldest_sum [of "old @ [new]" ?b] sumold c
      have "snd (evictOldest (old @ [new]) ?b) = encodeBytes enc t" by (simp add: new_def)
      with c show "?cs = [new] \<and> snd (evictOldest (old @ [new]) ?b) = encodeBytes enc t" by simp
    qed
    from e s l one big
    show "\<exists>e. m' ident = Some e \<and> suffix (chunks e) (old @ [new]) \<and> last (chunks e) = new \<and>
                 (length (chunks e) = 1 \<longrightarrow> chunks e = [new]) \<and>
                 (SNAPSHOT_LIMIT_BYTES < encodeBytes enc t \<longrightarrow>
                    chunks e = [new] \<and> bytes e = encodeBytes enc t)"
      by (intro exI [of _ ?e]) simp
  qed
qed


theorem snapshot_cap_witness:
  "js ''cd'' \<noteq> [] \<and>
   (\<exists>e. appendSnapshotChunk True (js ''t1'') (js ''cd'')
          (appendAll True [(js ''t1'', js ''ab'')] Map.empty) (js ''t1'') = Some e \<and>
        last (chunks e) = \<lparr>ctext = js ''cd'', cbytes = encodeBytes True (js ''cd'')\<rparr> \<and>
        bytes e = sum_list (map cbytes (chunks e))) \<and>
   getSnapshotText (js ''t1'')
     (appendSnapshotChunk True (js ''t1'') (js ''cd'')
        (appendAll True [(js ''t1'', js ''ab'')] Map.empty)) = js ''abcd''"
proof -
  have n: "js ''cd'' \<noteq> []" by (simp add: js_def)
  have g: "getSnapshotText (js ''t1'')
     (appendSnapshotChunk True (js ''t1'') (js ''cd'')
        (appendAll True [(js ''t1'', js ''ab'')] Map.empty)) = js ''abcd''" by code_simp
  from snapshot_cap [of True "js ''t1''" "js ''cd''" "[(js ''t1'', js ''ab'')]"] n g
  show ?thesis by blast
qed

section \<open>Properties of the terminal pane\<close>

lemma handleIncoming_flags:
  "historyReceived (handleIncoming P data h s) = historyReceived s \<and>
   historyReplayedViaFallback (handleIncoming P data h s) = historyReplayedViaFallback s \<and>
   timerScheduled (handleIncoming P data h s) = timerScheduled s \<and>
   disposed (handleIncoming P data h s) = disposed s \<and>
   startTs (handleIncoming P data h s) = startTs s \<and>
   startErrors (handleIncoming P data h s) = startErrors s"
  by (simp add: handleIncoming_def writeAndAppend_def Let_def split: prod.splits)

text \<open>
  C1. Once the fallback replay has happened, a history chunk is sanitized first. Let
  \<open>out\<close> be the sanitized text without the cached snapshot text in front when the cache
  is not empty and the sanitized text starts with it, and the whole sanitized text
  otherwise. Then exactly \<open>out\<close> is written to the terminal and appended to the snapshot,
  and nothing is written or appended when \<open>out\<close> is empty (appending the empty text
  leaves the snapshot as it is).
\<close>

theorem fallback_dedup:
  assumes "historyReplayedViaFallback s"
    and "sanitizeEchoArtifacts (pendingOsc s) data = (sanitized, pending)"
    and "cached = getSnapshotText (termId P) (terminalSnapshots s)"
    and "out = (if cached \<noteq> [] \<and> prefix cached sanitized
                then drop (length cached) sanitized else sanitized)"
  shows "written (onPtyHistory P data s) = written s @ (if out = [] then [] else [out]) \<and>
         terminalSnapshots (onPtyHistory P data s) =
           appendSnapshotChunk (textEncoder P) (termId P) out (terminalSnapshots s) \<and>
         pendingOsc (onPtyHistory P data s) = pending \<and>
         historyReplayedViaFallback (onPtyHistory P data s)"
  using assms
  by (simp add: onPtyHistory_def handleIncoming_def writeAndAppend_def Let_def
      appendSnapshotChunk_def)

text \<open>
  The instance of the claim: the snapshot holds \<open>ABC\<close> and the fallback has replayed
  it; the history chunk \<open>ABCDEF\<close> writes and appends \<open>DEF\<close> only, the history chunk
  \<open>XYZ\<close> is written and appended in full.
\<close>

theorem fallback_dedup_witness:
  "historyReplayedViaFallback (run demoProps (mount demoSnapshots 0) [FallbackTimer]) \<and>
   written (run demoProps (mount demoSnapshots 0) [FallbackTimer]) = [js ''ABC''] \<and>
   written (onPtyHistory demoProps (js ''ABCDEF'')
              (run demoProps (mount demoSnapshots 0) [FallbackTimer])) = [js ''ABC'', js ''DEF''] \<and>
   getSnapshotText (js ''t1'') (terminalSnapshots (onPtyHistory demoProps (js ''ABCDEF'')
              (run demoProps (mount demoSnapshots 0) [FallbackTimer]))) = js ''ABCDEF'' \<and>
   written (onPtyHistory demoProps (js ''XYZ'')
              (run demoProps (mount demoSnapshots 0) [FallbackTimer])) = [js ''ABC'', js ''XYZ''] \<and>
   getSnapshotText (js ''t1'') (terminalSnapshots (onPtyHistory demoProps (js ''XYZ'')
              (run demoProps (mount demoSnapshots 0) [FallbackTimer]))) = js ''ABCXYZ''"
proof -
  let ?s = "run demoProps (mount demoSnapshots 0) [FallbackTimer]"
  have h: "historyReplayedViaFallback ?s" by code_simp
  have w: "written ?s = [js ''ABC'']" by code_simp
  have c: "js ''ABC'' = getSnapshotText (termId demoProps) (terminalSnapshots ?s)" by code_simp
  have s1: "sanitizeEchoArtifacts (pendingOsc ?s) (js ''ABCDEF'') = (js ''ABCDEF'', [])"
    by code_simp
  have o1: "js ''DEF'' = (if js ''ABC'' \<noteq> [] \<and> prefix (js ''ABC'') (js ''ABCDEF'')
                then drop (length (js ''ABC'')) (js ''ABCDEF'') else js ''ABCDEF'')"
    by code_simp
  have s2: "sanitizeEchoArtifacts (pendingOsc ?s) (js ''XYZ'') = (js ''XYZ'', [])"
    by code_simp
  have o2: "js ''XYZ'' = (if js ''ABC'' \<noteq> [] \<and> prefix (js ''ABC'') (js ''XYZ'')
                then drop (length (js ''ABC'')) (js ''XYZ'') else js ''XYZ'')"
    by code_simp
  have n: "js ''DEF'' \<noteq> []" "js ''XYZ'' \<noteq> []" by (simp_all add: js_def)
  have g1: "getSnapshotText (js ''t1'') (terminalSnapshots (onPtyHistory demoProps (js ''ABCDEF'') ?s))
              = js ''ABCDEF''" by code_simp
  have g2: "getSnapshotText (js ''t1'') (terminalSnapshots (onPtyHistory demoProps (js ''XYZ'') ?s))
              = js ''ABCXYZ''" by code_simp
  from fallback_dedup [OF h s1 c o1] fallback_dedup [OF h s2 c o2] h w n g1 g2
  show ?thesis by simp
qed

lemma step_flags:
  "historyReceived s \<and> \<not> historyReplayedViaFallback s \<Longrightarrow>
   historyReceived (step P s e) \<and> \<not> historyReplayedViaFallback (step P s e)"
  by (cases e)
    (simp_all add: step_def onPtyHistory_def onPtyData_def onPtyExit_def fallbackTimer_def
      cleanup_def handleIncoming_flags Let_def)

lemma run_flags:
  "historyReceived s \<and> \<not> historyReplayedViaFallback s \<Longrightarrow>
   historyReceived (run P s es) \<and> \<not> historyReplayedViaFallback (run P s es)"
  unfolding run_def
proof (induction es arbitrary: s)
  case Nil
  then show ?case by simp
next
  case (Cons e es)
  from Cons.IH [OF step_flags [OF Cons.prems]] show ?case by simp
qed

lemma timer_gated:
  "historyReceived s \<Longrightarrow>
   written (step P s FallbackTimer) = written s \<and>
   terminalSnapshots (step P s FallbackTimer) = terminalSnapshots s \<and>
   historyReplayedViaFallback (step P s FallbackTimer) = historyReplayedViaFallback s"
  by (simp add: step_def fallbackTimer_def)

text \<open>
  C4, as stated, fails: the history handler only sets \<open>historyReceived\<close>. After the
  first history chunk the timeout is still scheduled, and it does run later.
\<close>

theorem history_leaves_timer_scheduled:
  "timerScheduled (step demoProps (mount demoSnapshots 0) (PtyHistory (js ''hello''))) \<and>
   \<not> timerScheduled (step demoProps
        (step demoProps (mount demoSnapshots 0) (PtyHistory (js ''hello''))) FallbackTimer)"
  by code_simp

text \<open>
  C4, amended. A history chunk that arrives before any fallback replay leaves the timeout
  scheduled as it was and sets \<open>historyReceived\<close>. From then on, whatever events
  follow, the pane never gets to \<open>historyReplayedViaFallback\<close>, and the timeout, when it
  runs, writes nothing to the terminal and leaves the snapshots alone: its body is guarded
  by \<open>historyReceived\<close>.
\<close>

theorem history_gates_fallback:
  assumes "\<not> disposed s" and "\<not> historyReplayedViaFallback s"
  shows "timerScheduled (step P s (PtyHistory data)) = timerScheduled s \<and>
         historyReceived (step P s (PtyHistory data)) \<and>
         \<not> historyReplayedViaFallback (run P (step P s (PtyHistory data)) es) \<and>
         written (step P (run P (step P s (PtyHistory data)) es) FallbackTimer) =
           written (run P (step P s (PtyHistory data)) es) \<and>
         terminalSnapshots (step P (run P (step P s (PtyHistory data)) es) FallbackTimer) =
           terminalSnapshots (run P (step P s (PtyHistory data)) es)"
proof -
  let ?s1 = "step P s (PtyHistory data)"
  from assms have f: "historyReceived ?s1 \<and> \<not> historyReplayedViaFallback ?s1"
    and t: "timerScheduled ?s1 = timerScheduled s"
    by (simp_all add: step_def onPtyHistory_def handleIncoming_flags)
  from run_flags [OF f, of P es] have r: "historyReceived (run P ?s1 es)"
    "\<not> historyReplayedViaFallback (run P ?s1 es)" by simp_all
  from timer_gated [OF r(1), of P] r f t show ?thesis by simp
qed

theorem history_gates_fallback_witness:
  "\<not> disposed (mount demoSnapshots 0) \<and> \<not> historyReplayedViaFallback (mount demoSnapshots 0) \<and>
   timerScheduled (step demoProps (mount demoSnapshots 0) (PtyHistory (js ''hello''))) \<and>
   \<not> historyReplayedViaFallback
       (run demoProps (step demoProps (mount demoSnapshots 0) (PtyHistory (js ''hello'')))
          [FallbackTimer, PtyData (js ''x'')]) \<and>
   written (run demoProps (mount demoSnapshots 0) [PtyHistory (js ''hello''), FallbackTimer])
     = [js ''hello'']"
proof -
  have a: "\<not> disposed (mount demoSnapshots 0)" "\<not> historyReplayedViaFallback (mount demoSnapshots 0)"
    by (simp_all add: mount_def)
  have t: "timerScheduled (mount demoSnapshots 0)" by (simp add: mount_def)
  have w: "written (run demoProps (mount demoSnapshots 0) [PtyHistory (js ''hello''), FallbackTimer])
     = [js ''hello'']" by code_simp
  from history_gates_fallback [OF a, of demoProps "js ''hello''" "[FallbackTimer, PtyData (js ''x'')]"]
    a t w show ?thesis by simp
qed

lemma earlyExitMessage_127: "earlyExitMessage (Some 127) = js ''PTY exited early (code 127)''"
  by code_simp

lemma earlyExitMessage_none: "earlyExitMessage None = js ''PTY exited early (code n/a)''"
  by code_simp

lemma startTs_step: "startTs (step P s e) = startTs s"
  by (cases e)
    (simp_all add: step_def onPtyHistory_def onPtyData_def onPtyExit_def fallbackTimer_def
      cleanup_def handleIncoming_flags Let_def)

lemma startTs_run: "startTs (run P s es) = startTs s"
  unfolding run_def by (induction es arbitrary: s) (simp_all add: startTs_step)

text \<open>
  C7. The exit handler calls \<open>onStartError\<close>, with the message that reports the exit
  code, exactly when less than 1500 ms have passed since the start time and the callback
  was provided; nothing else changes. No event changes the start time taken at mount. An
  exit 1200 ms after the start calls the callback, the same exit 2000 ms after the start
  does not, and without a callback nothing is called.
\<close>

theorem early_exit_detection:
  "onPtyExit P now exitCode s =
     (if now - startTs s < 1500 \<and> onStartError P \<noteq> None
      then s\<lparr>startErrors := startErrors s @ [earlyExitMessage exitCode]\<rparr> else s) \<and>
   startTs (run P (mount m t0) es) = t0 \<and>
   startErrors (run (P\<lparr>onStartError := Some cb\<rparr>) (mount m t0) [PtyExit (t0 + 1200) (Some 127)])
     = [js ''PTY exited early (code 127)''] \<and>
   startErrors (run (P\<lparr>onStartError := Some cb\<rparr>) (mount m t0) [PtyExit (t0 + 2000) (Some 127)])
     = [] \<and>
   startErrors (run (P\<lparr>onStartError := None\<rparr>) (mount m t0) [PtyExit (t0 + 1200) (Some 127)])
     = [] \<and>
   earlyExitMessage None = js ''PTY exited early (code n/a)''"
proof -
  have handler: "onPtyExit P now exitCode s =
     (if now - startTs s < 1500 \<and> onStartError P \<noteq> None
      then s\<lparr>startErrors := startErrors s @ [earlyExitMessage exitCode]\<rparr> else s)"
    by (simp add: onPtyExit_def Let_def)
  have start: "startTs (run P (mount m t0) es) = t0"
    by (simp add: startTs_run mount_def)
  have early: "startErrors (run (P\<lparr>onStartError := Some cb\<rparr>) (mount m t0)
                  [PtyExit (t0 + 1200) (Some 127)]) = [js ''PTY exited early (code 127)'']"
    by (simp add: run_def step_def mount_def onPtyExit_def Let_def earlyExitMessage_127)
  have late: "startErrors (run (P\<lparr>onStartError := Some cb\<rparr>) (mount m t0)
                  [PtyExit (t0 + 2000) (Some 127)]) = []"
    by (simp add: run_def step_def mount_def onPtyExit_def Let_def)
  have absent: "startErrors (run (P\<lparr>onStartError := None\<rparr>) (mount m t0)
                  [PtyExit (t0 + 1200) (Some 127)]) = []"
    by (simp add: run_def step_def mount_def onPtyExit_def Let_def)
  from handler start early late absent earlyExitMessage_none show ?thesis by blast
qed

section \<open>Properties of the focus registry\<close>

text \<open>
  C8, as stated, fails for the empty id: \<open>registerTerminalFocus\<close> returns at once when
  the id is empty, so after registering handler 1 and then handler 2 under the empty id
  and unregistering handler 1, handler 2 is not registered.
\<close>

theorem registry_empty_id_not_registered:
  "map_of (unregisterTerminalFocus [] (Some (1::nat))
            (registerTerminalFocus [] 2 (registerTerminalFocus [] 1 []))) [] = None \<and>
   map_of (registerTerminalFocus [] (2::nat) (registerTerminalFocus [] 1 [])) [] \<noteq> Some 2"
  by (simp add: registerTerminalFocus_def unregisterTerminalFocus_def)

lemma register_fresh:
  "ident \<noteq> [] \<Longrightarrow> ident \<notin> fst ` set reg \<Longrightarrow>
   registerTerminalFocus ident h reg = reg @ [(ident, h)]"
  by (induction reg) (auto simp: registerTerminalFocus_def)

text \<open>
  C8, amended. For an id that is not empty: registering sets the id's handler, whatever
  it was, and touches no other id; unregistering without a handler removes the id's entry;
  unregistering with a handler removes it only when that very handler is the registered
  one; no other id is touched. After registering \<open>a\<close> and then a different \<open>b\<close>,
  unregistering \<open>a\<close> leaves \<open>b\<close> registered and unregistering \<open>b\<close> then removes it.
  With the empty id, both functions leave the registry as it is.
\<close>

theorem registry_semantics:
  "(ident \<noteq> [] \<longrightarrow>
      map_of (registerTerminalFocus ident h reg) ident = Some h \<and>
      (\<forall>k. k \<noteq> ident \<longrightarrow> map_of (registerTerminalFocus ident h reg) k = map_of reg k) \<and>
      map_of (unregisterTerminalFocus ident None reg) ident = None \<and>
      ident \<notin> fst ` set (unregisterTerminalFocus ident None reg) \<and>
      map_of (unregisterTerminalFocus ident (Some h) reg) ident =
        (if map_of reg ident = Some h then None else map_of reg ident) \<and>
      (\<forall>k. k \<noteq> ident \<longrightarrow> map_of (unregisterTerminalFocus ident ho reg) k = map_of reg k) \<and>
      (a \<noteq> b \<longrightarrow>
         map_of (unregisterTerminalFocus ident (Some a)
                   (registerTerminalFocus ident b (registerTerminalFocus ident a reg))) ident
           = Some b \<and>
         map_of (unregisterTerminalFocus ident (Some b)
                   (unregisterTerminalFocus ident (Some a)
                      (registerTerminalFocus ident b (registerTerminalFocus ident a reg)))) ident
           = None)) \<and>
   registerTerminalFocus [] h reg = reg \<and> unregisterTerminalFocus [] ho reg = reg"
  by (auto simp: registerTerminalFocus_def unregisterTerminalFocus_def update_conv' delete_conv'
      delete_notin_dom split: option.splits)

theorem registry_semantics_witness:
  "js ''t1'' \<noteq> [] \<and> (1::nat) \<noteq> 2 \<and>
   map_of (registerTerminalFocus (js ''t1'') (2::nat) (registerTerminalFocus (js ''t1'') 1 []))
     (js ''t1'') = Some 2 \<and>
   map_of (unregisterTerminalFocus (js ''t1'') (Some (1::nat))
             (registerTerminalFocus (js ''t1'') 2 (registerTerminalFocus (js ''t1'') 1 [])))
     (js ''t1'') = Some 2 \<and>
   map_of (unregisterTerminalFocus (js ''t1'') (Some (2::nat))
             (unregisterTerminalFocus (js ''t1'') (Some 1)
                (registerTerminalFocus (js ''t1'') 2 (registerTerminalFocus (js ''t1'') 1 []))))
     (js ''t1'') = None"
proof -
  have n: "js ''t1'' \<noteq> []" by (simp add: js_def)
  have d: "(1::nat) \<noteq> 2" by simp
  from registry_semantics [of "js ''t1''" "2::nat" "registerTerminalFocus (js ''t1'') 1 []" None 1 2]
    registry_semantics [of "js ''t1''" "1::nat" "[]" None 1 2] n d
  show ?thesis by simp
qed

lemma tryEntry_cases:
  "tryEntry call predicate ident h =
     (if fires call predicate (ident, h) then ([h], Inr (Some True))
      else if selects predicate (ident, h) then ([h], Inl Thrown)
      else if predicate ident h = Inr False then ([], Inr None)
      else ([], Inl Thrown))"
proof (cases "predicate ident h")
  case (Inl e)
  then show ?thesis by (cases e) (simp add: tryEntry_def fires_def selects_def)
next
  case (Inr b)
  show ?thesis
  proof (cases "call h")
    case (Inl e)
    with Inr show ?thesis by (cases e; cases b) (simp_all add: tryEntry_def fires_def selects_def)
  next
    case (Inr u)
    with \<open>predicate ident h = Inr b\<close> show ?thesis
      by (cases b) (simp_all add: tryEntry_def fires_def selects_def)
  qed
qed

lemma focus_Cons:
  "focusTerminalMatching call predicate ((ident, h) # rest) =
     (if fires call predicate (ident, h) then ([h], Inr True)
      else ((if selects predicate (ident, h) then [h] else []) @
              fst (focusTerminalMatching call predicate rest),
            snd (focusTerminalMatching call predicate rest)))"
  by (simp add: tryEntry_cases split: prod.splits)

lemma focus_no_exception: "\<exists>b. snd (focusTerminalMatching call predicate reg) = Inr b"
proof (induction reg)
  case Nil
  show ?case by auto
next
  case (Cons e reg)
  then show ?case by (cases e) (auto simp: focus_Cons simp del: focusTerminalMatching.simps)
qed

lemma focus_true_iff:
  "snd (focusTerminalMatching call predicate reg) = Inr True \<longleftrightarrow>
     (\<exists>e\<in>set reg. fires call predicate e)"
proof (induction reg)
  case Nil
  then show ?case by simp
next
  case (Cons e reg)
  then show ?case by (cases e) (simp add: focus_Cons del: focusTerminalMatching.simps)
qed

lemma focus_called:
  "fst (focusTerminalMatching call predicate reg) =
     map snd (filter (selects predicate) (takeWhile (\<lambda>e. \<not> fires call predicate e) reg)) @
     map snd (take 1 (dropWhile (\<lambda>e. \<not> fires call predicate e) reg))"
proof (induction reg)
  case Nil
  then show ?case by simp
next
  case (Cons e reg)
  then show ?case by (cases e) (simp add: focus_Cons del: focusTerminalMatching.simps)
qed

lemma focus_none:
  "\<forall>e\<in>set reg. \<not> selects predicate e \<Longrightarrow>
   focusTerminalMatching call predicate reg = ([], Inr False)"
proof (induction reg)
  case Nil
  then show ?case by simp
next
  case (Cons e reg)
  then show ?case
    by (cases e) (simp add: focus_Cons fires_def selects_def del: focusTerminalMatching.simps)
qed

lemma focus_first:
  "\<forall>e\<in>set pre. \<not> selects predicate e \<Longrightarrow> fires call predicate (ident, h) \<Longrightarrow>
   focusTerminalMatching call predicate (pre @ (ident, h) # rest) = ([h], Inr True)"
proof (induction pre)
  case Nil
  then show ?case by (simp add: focus_Cons del: focusTerminalMatching.simps)
next
  case (Cons e pre)
  then show ?case
    by (cases e) (simp add: focus_Cons fires_def selects_def del: focusTerminalMatching.simps)
qed

text \<open>
  C9. \<open>focusTerminalMatching\<close> never ends with an exception. It goes through the
  entries in the order of the \<open>Map\<close>, in which a newly registered id stands last. It
  returns \<open>true\<close> exactly when some entry satisfies the predicate and its handler does
  not throw, and the handlers it calls are those of the entries satisfying the predicate,
  in order, up to and including the first that does not throw. So: it returns \<open>false\<close>
  and calls nothing when no entry satisfies the predicate; when the first entry that
  satisfies the predicate has a handler that does not throw, that handler alone is called
  and the result is \<open>true\<close>; and an entry whose predicate or handler throws is passed
  over and the scan goes on with the entries after it.
\<close>

theorem focus_matching_scan:
  "(\<exists>b. snd (focusTerminalMatching call predicate reg) = Inr b) \<and>
   (snd (focusTerminalMatching call predicate reg) = Inr True \<longleftrightarrow>
      (\<exists>e\<in>set reg. fires call predicate e)) \<and>
   fst (focusTerminalMatching call predicate reg) =
     map snd (filter (selects predicate) (takeWhile (\<lambda>e. \<not> fires call predicate e) reg)) @
     map snd (take 1 (dropWhile (\<lambda>e. \<not> fires call predicate e) reg)) \<and>
   ((\<forall>e\<in>set reg. \<not> selects predicate e) \<longrightarrow>
      focusTerminalMatching call predicate reg = ([], Inr False)) \<and>
   ((\<forall>e\<in>set pre. \<not> selects predicate e) \<and> fires call predicate (ident, h) \<longrightarrow>
      focusTerminalMatching call predicate (pre @ (ident, h) # rest) = ([h], Inr True)) \<and>
   (\<not> fires call predicate (ident, h) \<longrightarrow>
      focusTerminalMatching call predicate ((ident, h) # rest) =
        ((if selects predicate (ident, h) then [h] else []) @
           fst (focusTerminalMatching call predicate rest),
         snd (focusTerminalMatching call predicate rest))) \<and>
   (ident \<noteq> [] \<and> ident \<notin> fst ` set reg \<longrightarrow>
      registerTerminalFocus ident h reg = reg @ [(ident, h)])"
  using focus_no_exception [of call predicate reg] focus_true_iff [of call predicate reg]
    focus_called [of call predicate reg] focus_none [of reg predicate call]
    focus_first [of pre predicate call ident h rest] focus_Cons [of call predicate ident h rest]
    register_fresh [of ident reg h]
  by (simp del: focusTerminalMatching.simps)

theorem focus_matching_scan_witness:
  "\<not> selects demoPredicate (js ''a'', 1::nat) \<and>
   \<not> selects demoPredicate (js ''b'', 5::nat) \<and>
   \<not> fires demoCall demoPredicate (js ''c'', 2) \<and>
   fires demoCall demoPredicate (js ''d'', 3) \<and>
   focusTerminalMatching demoCall demoPredicate demoRegistry = ([2, 3], Inr True) \<and>
   focusTerminalMatching demoCall demoPredicate [(js ''a'', 1::nat), (js ''b'', 5)] = ([], Inr False)"
proof -
  have a: "\<forall>e\<in>set [(js ''a'', 1::nat), (js ''b'', 5)]. \<not> selects demoPredicate e"
    by (simp add: selects_def demoPredicate_def js_def)
  have c: "\<not> fires demoCall demoPredicate (js ''c'', 2)"
    by (simp add: fires_def demoCall_def)
  have d: "fires demoCall demoPredicate (js ''d'', 3)"
    by (simp add: fires_def demoCall_def demoPredicate_def js_def)
  have r: "focusTerminalMatching demoCall demoPredicate demoRegistry = ([2, 3], Inr True)"
    by code_simp
  from focus_matching_scan [of demoCall demoPredicate "[(js ''a'', 1::nat), (js ''b'', 5)]"
      "[]" "js ''d''" 3 "[]"] a c d r
  show ?thesis by simp
qed


end
